theory Spec2Isabelle
  imports Main
begin

section \<open>Data structures of process\_scheduler.c\<close>

text \<open>
  The process control block of the source. The array \<open>all_processes\<close> is a list of
  records; a pointer \<open>Process *\<close> into that array is the index of the record. The
  \<open>next\<close> link of the source is represented by the order of a queue's index list, so a
  \<open>Queue\<close> (head, tail, size) is the list of the indices it links, head first;
  \<open>size\<close> is its length and \<open>head == NULL\<close> is the empty list.

  A C \<open>int\<close> is an integer from \<open>INT_MIN\<close> to \<open>INT_MAX\<close>, 32 bits wide. Where the source
  adds, subtracts or increments, the stored result is the mathematical result reduced to
  that range modulo \<open>2^32\<close> (\<open>c_int\<close>): a signed overflow, which C leaves undefined, wraps
  around as in the compiled program.
\<close>

definition INT_MAX :: int where
  "INT_MAX = 2147483647"

definition INT_MIN :: int where
  "INT_MIN = - 2147483648"

definition c_int :: "int \<Rightarrow> int" where
  "c_int k = (k + 2147483648) mod 4294967296 - 2147483648"

datatype ProcessState =
  STATE_NEW | STATE_READY | STATE_RUNNING | STATE_WAITING | STATE_TERMINATED

record Process =
  pid :: int
  arrival_time :: int
  cpu_execution_time :: int
  remaining_time :: int
  interval_time :: int
  io_time :: int
  priority :: int
  original_priority :: int
  state :: ProcessState
  time_in_ready_queue :: int
  io_completion_time :: int
  has_arrived :: bool

type_synonym Queue = "nat list"

text \<open>The lines the program prints, in the order it prints them.\<close>

datatype event =
  Arrived int int
  | MovedToReady int int
  | Dispatched int int int int int
  | BlockedForIO int int int
  | IOFinished int int
  | Terminated int int

section \<open>Queue operations\<close>

definition is_empty :: "Queue \<Rightarrow> bool" where
  "is_empty q = (length q = 0)"

definition enqueue :: "Queue \<Rightarrow> nat \<Rightarrow> Queue" where
  "enqueue q p = q @ [p]"

fun dequeue :: "Queue \<Rightarrow> nat option \<times> Queue" where
  "dequeue [] = (None, [])"
| "dequeue (p # q) = (Some p, q)"

text \<open>The comparison inside the loop of \<open>insert_ready_queue\<close>.\<close>

definition should_insert :: "Process \<Rightarrow> Process \<Rightarrow> bool" where
  "should_insert p current =
     (if priority p < priority current then True
      else if priority p = priority current \<and> remaining_time p < remaining_time current
      then True
      else False)"

text \<open>The search for the position and the relinking: \<open>p\<close> goes before the first
  \<open>current\<close> for which \<open>should_insert\<close> holds, or at the end.\<close>

fun insert_at :: "Process list \<Rightarrow> nat \<Rightarrow> Queue \<Rightarrow> Queue" where
  "insert_at ps p [] = [p]"
| "insert_at ps p (current # rest) =
     (if should_insert (ps ! p) (ps ! current) then p # current # rest
      else current # insert_at ps p rest)"

definition insert_ready_queue :: "Process list \<Rightarrow> Queue \<Rightarrow> nat \<Rightarrow> Process list \<times> Queue" where
  "insert_ready_queue ps q p =
     (let ps' = ps[p := (ps ! p)\<lparr>time_in_ready_queue := 0\<rparr>]
      in (ps', insert_at ps' p q))"

text \<open>Unlinking one node, as \<open>remove_from_queue\<close> and the I/O manager do.\<close>

definition remove_from_queue :: "Queue \<Rightarrow> nat \<Rightarrow> Queue" where
  "remove_from_queue q p = remove1 p q"

section \<open>Aging\<close>

text \<open>The body of the loop of \<open>update_aging\<close> for one record. The division and the
  remainder are taken only when the accumulated time is at least 100, where C's truncating
  operators and \<open>div\<close>, \<open>mod\<close> agree.\<close>

definition age_process :: "int \<Rightarrow> Process \<Rightarrow> Process" where
  "age_process elapsed_ms c =
     (let c1 = c\<lparr>time_in_ready_queue := c_int (time_in_ready_queue c + elapsed_ms)\<rparr>
      in if time_in_ready_queue c1 \<ge> 100 then
           (let aging_steps = time_in_ready_queue c1 div 100;
                c2 = c1\<lparr>time_in_ready_queue := time_in_ready_queue c1 mod 100\<rparr>
            in if priority c2 > 0 then
                 (let c3 = c2\<lparr>priority := c_int (priority c2 - aging_steps)\<rparr>
                  in if priority c3 < 0 then c3\<lparr>priority := 0\<rparr> else c3)
               else c2)
         else c1)"

fun update_aging_from :: "int \<Rightarrow> Queue \<Rightarrow> Process list \<Rightarrow> Process list" where
  "update_aging_from elapsed_ms [] ps = ps"
| "update_aging_from elapsed_ms (current # rest) ps =
     update_aging_from elapsed_ms rest (ps[current := age_process elapsed_ms (ps ! current)])"

definition update_aging :: "int \<Rightarrow> Process list \<Rightarrow> Queue \<Rightarrow> Process list" where
  "update_aging elapsed_ms ps q = update_aging_from elapsed_ms q ps"

text \<open>\<open>resort_ready_queue\<close>: the first loop dequeues everything into the array
  \<open>processes\<close>, the second re-inserts the array from index 0.\<close>

function collect_all :: "Queue \<Rightarrow> nat list \<Rightarrow> nat list" where
  "collect_all q processes =
     (if is_empty q then processes
      else (case dequeue q of
              (None, _) \<Rightarrow> processes
            | (Some p, q') \<Rightarrow> collect_all q' (processes @ [p])))"
  by pat_completeness auto
termination
proof (relation "measure (\<lambda>(q, processes). length q)")
  show "wf (measure (\<lambda>(q, processes). length q))" by simp
next
  fix q :: Queue and processes :: "nat list" and x y x2
  assume "\<not> is_empty q" "(x, y) = dequeue q" "x = Some x2"
  then show "((y, processes @ [x2]), (q, processes)) \<in> measure (\<lambda>(q, processes). length q)"
    by (cases q) auto
qed

declare collect_all.simps [simp del]

fun reinsert_all :: "nat list \<Rightarrow> Process list \<times> Queue \<Rightarrow> Process list \<times> Queue" where
  "reinsert_all [] (ps, q) = (ps, q)"
| "reinsert_all (p # rest) (ps, q) = reinsert_all rest (insert_ready_queue ps q p)"

definition resort_ready_queue :: "Process list \<Rightarrow> Queue \<Rightarrow> Process list \<times> Queue" where
  "resort_ready_queue ps q =
     (if length q \<le> 1 then (ps, q)
      else reinsert_all (collect_all q []) (ps, []))"

section \<open>Input parsing\<close>

text \<open>
  The file is its contents, a string, or \<open>None\<close> when \<open>fopen\<close> fails.
  \<open>fgets(line, 256, file)\<close> returns the next characters up to and including a newline,
  at most 255 of them; \<open>fgets_lines\<close> is the list of the buffers that successive calls
  return until the end of the file.
\<close>

fun fgets_from :: "string \<Rightarrow> string \<Rightarrow> string list" where
  "fgets_from line [] = (if line = [] then [] else [line])"
| "fgets_from line (c # rest) =
     (if c = CHR 0x0A \<or> length line + 1 = 255 then (line @ [c]) # fgets_from [] rest
      else fgets_from (line @ [c]) rest)"

definition fgets_lines :: "string \<Rightarrow> string list" where
  "fgets_lines content = fgets_from [] content"

text \<open>A buffer as a C string: the characters before the first NUL.\<close>

definition c_str :: "string \<Rightarrow> string" where
  "c_str line = takeWhile (\<lambda>c. c \<noteq> CHR 0x00) line"

definition strlen :: "string \<Rightarrow> nat" where
  "strlen line = length (c_str line)"

text \<open>The conversion \<open>%d\<close> of \<open>sscanf\<close>: white space is skipped, then an optional sign
  and at least one decimal digit are read. The digits are converted as by \<open>strtol\<close>,
  which returns \<open>LONG_MIN\<close> or \<open>LONG_MAX\<close> (64 bits) for a value outside the range of
  \<open>long\<close>, and the result is stored into the \<open>int\<close> (\<open>store_int\<close>): the C standard
  leaves a value outside the range of \<open>int\<close> undefined, this is what the GNU C library
  does.\<close>

definition c_long :: "int \<Rightarrow> int" where
  "c_long k = (if k < - 9223372036854775808 then - 9223372036854775808
     else if k > 9223372036854775807 then 9223372036854775807 else k)"

definition store_int :: "int \<Rightarrow> int" where
  "store_int k = c_int (c_long k)"

definition isspace :: "char \<Rightarrow> bool" where
  "isspace c = (c = CHR 0x20 \<or> c = CHR 0x09 \<or> c = CHR 0x0A \<or> c = CHR 0x0B
     \<or> c = CHR 0x0C \<or> c = CHR 0x0D)"

definition isdigit :: "char \<Rightarrow> bool" where
  "isdigit c = (48 \<le> (of_char c :: nat) \<and> (of_char c :: nat) \<le> 57)"

fun scan_digits :: "int \<Rightarrow> string \<Rightarrow> int \<times> string" where
  "scan_digits acc [] = (acc, [])"
| "scan_digits acc (c # rest) =
     (if isdigit c then scan_digits (acc * 10 + (int (of_char c) - 48)) rest
      else (acc, c # rest))"

definition scan_unsigned :: "string \<Rightarrow> (int \<times> string) option" where
  "scan_unsigned s =
     (case s of
        [] \<Rightarrow> None
      | c # rest \<Rightarrow> if isdigit c then Some (scan_digits 0 s) else None)"

definition scan_int :: "string \<Rightarrow> (int \<times> string) option" where
  "scan_int s =
     (case dropWhile isspace s of
        [] \<Rightarrow> None
      | c # rest \<Rightarrow>
          if c = CHR ''-'' then
            (case scan_unsigned rest of
               None \<Rightarrow> None
             | Some (v, r) \<Rightarrow> Some (store_int (- v), r))
          else if c = CHR ''+'' then
            (case scan_unsigned rest of
               None \<Rightarrow> None
             | Some (v, r) \<Rightarrow> Some (store_int v, r))
          else
            (case scan_unsigned (c # rest) of
               None \<Rightarrow> None
             | Some (v, r) \<Rightarrow> Some (store_int v, r)))"

text \<open>The values that \<open>sscanf\<close> converts for a format of \<open>n\<close> conversions \<open>%d\<close>
  separated by white space; it stops at the first conversion that fails, and returns the
  number of values.\<close>

fun sscanf_ints :: "nat \<Rightarrow> string \<Rightarrow> int list" where
  "sscanf_ints 0 s = []"
| "sscanf_ints (Suc n) s =
     (case scan_int s of
        None \<Rightarrow> []
      | Some (v, r) \<Rightarrow> v # sscanf_ints n r)"

text \<open>The initialisation of one element of \<open>all_processes\<close>.\<close>

definition init_process :: "int \<Rightarrow> int \<Rightarrow> int \<Rightarrow> int \<Rightarrow> int \<Rightarrow> int \<Rightarrow> Process" where
  "init_process pid' arrival cpu_time interval io priority' =
     \<lparr>pid = pid', arrival_time = arrival, cpu_execution_time = cpu_time,
      remaining_time = cpu_time, interval_time = interval, io_time = io,
      priority = priority', original_priority = priority', state = STATE_NEW,
      time_in_ready_queue = 0, io_completion_time = 0, has_arrived = False\<rparr>"

datatype parse_error = OpenFailed | NoProcesses | InvalidFormat nat

text \<open>The second loop of \<open>parse_input_file\<close>; \<open>idx\<close> is the number of records read so
  far, the length of \<open>procs\<close>.\<close>

fun read_processes :: "nat \<Rightarrow> string list \<Rightarrow> Process list \<Rightarrow> parse_error + Process list" where
  "read_processes total_processes [] procs = Inr procs"
| "read_processes total_processes (line # rest) procs =
     (if \<not> length procs < total_processes then Inr procs
      else if strlen line \<le> 1 then read_processes total_processes rest procs
      else (case sscanf_ints 6 (c_str line) of
              [pid', arrival, cpu_time, interval, io, priority'] \<Rightarrow>
                read_processes total_processes rest
                  (procs @ [init_process pid' arrival cpu_time interval io priority'])
            | _ \<Rightarrow> Inl (InvalidFormat (length procs + 1))))"

text \<open>\<open>parse_input_file\<close>: every \<open>Inl\<close> is a return of \<open>-1\<close>. Allocation is taken to
  succeed.\<close>

definition parse_input_file :: "string option \<Rightarrow> parse_error + Process list" where
  "parse_input_file file =
     (case file of
        None \<Rightarrow> Inl OpenFailed
      | Some content \<Rightarrow>
          (let total_processes = length (filter (\<lambda>line. strlen line > 1) (fgets_lines content))
           in if total_processes = 0 then Inl NoProcesses
              else read_processes total_processes (fgets_lines content) []))"

section \<open>Shared state and the scheduler loop\<close>

text \<open>
  The global variables of the program together with the locals that \<open>run_scheduler\<close>
  keeps across iterations (\<open>running_process\<close>, \<open>running_until\<close>,
  \<open>last_aging_check\<close>), the printed lines, and \<open>in_tick\<close>: the scheduler thread has
  incremented the clock and has not yet run the part of the iteration that holds
  \<open>queue_mutex\<close>.
\<close>

record sched =
  all_processes :: "Process list"
  current_clock :: int
  all_terminated :: bool
  ready_queue :: Queue
  waiting_queue :: Queue
  running_process :: "nat option"
  running_until :: int
  last_aging_check :: int
  printed :: "event list"
  in_tick :: bool

definition initial_state :: "Process list \<Rightarrow> sched" where
  "initial_state procs =
     \<lparr>all_processes = procs, current_clock = 0, all_terminated = False,
      ready_queue = [], waiting_queue = [], running_process = None,
      running_until = 0, last_aging_check = 0, printed = [], in_tick = False\<rparr>"

text \<open>One iteration of the arrival loop, for index \<open>i\<close>.\<close>

definition admit :: "int \<Rightarrow> nat \<Rightarrow> sched \<Rightarrow> sched" where
  "admit clock i s =
     (let p = all_processes s ! i
      in if \<not> has_arrived p \<and> arrival_time p \<le> clock then
           (let ps1 = (all_processes s)[i := p\<lparr>has_arrived := True\<rparr>];
                out1 = printed s @ [Arrived clock (pid p)];
                ps2 = ps1[i := (ps1 ! i)\<lparr>state := STATE_READY\<rparr>];
                (ps3, q3) = insert_ready_queue ps2 (ready_queue s) i
            in s\<lparr>all_processes := ps3, ready_queue := q3,
                 printed := out1 @ [MovedToReady clock (pid p)]\<rparr>)
         else s)"

fun check_arrivals :: "int \<Rightarrow> nat list \<Rightarrow> sched \<Rightarrow> sched" where
  "check_arrivals clock [] s = s"
| "check_arrivals clock (i # rest) s = check_arrivals clock rest (admit clock i s)"

definition aging_check :: "int \<Rightarrow> sched \<Rightarrow> sched" where
  "aging_check clock s =
     (if clock > last_aging_check s then
        (let elapsed = c_int (clock - last_aging_check s);
             ps1 = update_aging elapsed (all_processes s) (ready_queue s);
             (ps2, q2) = resort_ready_queue ps1 (ready_queue s)
         in s\<lparr>all_processes := ps2, ready_queue := q2, last_aging_check := clock\<rparr>)
      else s)"

text \<open>The burst length recomputed from the clock when a burst is resolved, and the
  burst length computed at dispatch.\<close>

definition resolved_burst_time :: "int \<Rightarrow> int \<Rightarrow> Process \<Rightarrow> int" where
  "resolved_burst_time clock until p =
     (let burst_time = c_int (clock - c_int (until - interval_time p))
      in if burst_time > remaining_time p then remaining_time p else burst_time)"

definition dispatch_burst_time :: "Process \<Rightarrow> int" where
  "dispatch_burst_time p =
     (let burst_time = interval_time p
      in if burst_time > remaining_time p then remaining_time p else burst_time)"

definition finish_burst :: "int \<Rightarrow> sched \<Rightarrow> sched" where
  "finish_burst clock s =
     (case running_process s of
        None \<Rightarrow> s
      | Some r \<Rightarrow>
          if clock \<ge> running_until s then
            (let p = all_processes s ! r;
                 burst_time = resolved_burst_time clock (running_until s) p;
                 p1 = p\<lparr>remaining_time := c_int (remaining_time p - burst_time)\<rparr>
             in if remaining_time p1 \<le> 0 then
                  s\<lparr>all_processes := (all_processes s)[r := p1\<lparr>state := STATE_TERMINATED\<rparr>],
                    printed := printed s @ [Terminated clock (pid p1)],
                    running_process := None\<rparr>
                else
                  s\<lparr>all_processes := (all_processes s)
                        [r := p1\<lparr>state := STATE_WAITING,
                                  io_completion_time := c_int (clock + io_time p1)\<rparr>],
                    printed := printed s @ [BlockedForIO clock (pid p1) (io_time p1)],
                    waiting_queue := enqueue (waiting_queue s) r,
                    running_process := None\<rparr>)
          else s)"

text \<open>Dispatch. The source dereferences the result of \<open>dequeue\<close> without a test; the
  branch for \<open>None\<close> cannot be taken, because the queue was tested non-empty.\<close>

definition dispatch :: "int \<Rightarrow> sched \<Rightarrow> sched" where
  "dispatch clock s =
     (if running_process s = None \<and> \<not> is_empty (ready_queue s) then
        (case dequeue (ready_queue s) of
           (None, q) \<Rightarrow> s
         | (Some r, q) \<Rightarrow>
             (let p = (all_processes s ! r)\<lparr>state := STATE_RUNNING\<rparr>;
                  burst_time = dispatch_burst_time p
              in s\<lparr>ready_queue := q,
                   all_processes := (all_processes s)[r := p],
                   running_process := Some r,
                   running_until := c_int (clock + burst_time),
                   printed := printed s @
                     [Dispatched clock (pid p) (priority p) (remaining_time p) burst_time]\<rparr>))
      else s)"

definition all_done :: "Process list \<Rightarrow> bool" where
  "all_done ps = list_all (\<lambda>p. state p = STATE_TERMINATED) ps"

definition completion_check :: "sched \<Rightarrow> sched" where
  "completion_check s =
     (if all_done (all_processes s) \<and> running_process s = None
      then s\<lparr>all_terminated := True\<rparr> else s)"

text \<open>An iteration of the loop of \<open>run_scheduler\<close> is two atomic steps: the increment of
  the clock under \<open>clock_mutex\<close>, and the rest under \<open>queue_mutex\<close>.\<close>

definition clock_tick :: "sched \<Rightarrow> sched" where
  "clock_tick s = s\<lparr>current_clock := c_int (current_clock s + 1), in_tick := True\<rparr>"

definition tick_body :: "sched \<Rightarrow> sched" where
  "tick_body s =
     (let clock = current_clock s;
          s1 = check_arrivals clock [0..<length (all_processes s)] s;
          s2 = aging_check clock s1;
          s3 = finish_burst clock s2;
          s4 = dispatch clock s3
      in (completion_check s4)\<lparr>in_tick := False\<rparr>)"

section \<open>The I/O manager thread\<close>

text \<open>One completed wait: unlink from the waiting queue, mark ready, insert into the
  ready queue.\<close>

definition complete_io :: "int \<Rightarrow> nat \<Rightarrow> sched \<Rightarrow> sched" where
  "complete_io clock c s =
     (let wq = remove_from_queue (waiting_queue s) c;
          p = all_processes s ! c;
          ps1 = (all_processes s)[c := p\<lparr>state := STATE_READY\<rparr>];
          out1 = printed s @ [IOFinished clock (pid p)];
          (ps2, q2) = insert_ready_queue ps1 (ready_queue s) c
      in s\<lparr>waiting_queue := wq, all_processes := ps2, ready_queue := q2,
           printed := out1 @ [MovedToReady clock (pid p)]\<rparr>)"

fun io_scan :: "int \<Rightarrow> nat list \<Rightarrow> sched \<Rightarrow> sched" where
  "io_scan clock [] s = s"
| "io_scan clock (current # rest) s =
     (if clock \<ge> io_completion_time (all_processes s ! current)
      then io_scan clock rest (complete_io clock current s)
      else io_scan clock rest s)"

text \<open>One pass of the manager's loop body, with the clock value it read before taking
  \<open>queue_mutex\<close>.\<close>

definition io_manager_pass :: "int \<Rightarrow> sched \<Rightarrow> sched" where
  "io_manager_pass clock s = io_scan clock (waiting_queue s) s"

section \<open>Executions\<close>

text \<open>
  The states the two threads can reach from the state \<open>s0\<close> in which they start. The
  scheduler alternates \<open>clock_tick\<close> and \<open>tick_body\<close> until it raises
  \<open>all_terminated\<close>; a pass of the I/O manager can come between any two of these steps,
  with a clock value \<open>c\<close> that it read earlier (any value the clock has had).
\<close>

inductive reachable :: "sched \<Rightarrow> sched \<Rightarrow> bool" for s0 :: sched where
  reach_init: "reachable s0 s0"
| reach_clock: "reachable s0 s \<Longrightarrow> \<not> in_tick s \<Longrightarrow> \<not> all_terminated s
     \<Longrightarrow> reachable s0 (clock_tick s)"
| reach_body: "reachable s0 s \<Longrightarrow> in_tick s \<Longrightarrow> reachable s0 (tick_body s)"
| reach_io: "reachable s0 s \<Longrightarrow> 0 \<le> c \<Longrightarrow> c \<le> current_clock s
     \<Longrightarrow> reachable s0 (io_manager_pass c s)"

text \<open>The execution in which the I/O manager makes one pass after every iteration of the
  scheduler, having read the clock of that iteration: both threads sleep one millisecond per
  iteration.\<close>

definition lockstep_round :: "sched \<Rightarrow> sched" where
  "lockstep_round s =
     (if all_terminated s then s
      else (let s1 = tick_body (clock_tick s)
            in io_manager_pass (current_clock s1) s1))"

fun lockstep :: "nat \<Rightarrow> sched \<Rightarrow> sched" where
  "lockstep 0 s = s"
| "lockstep (Suc n) s = lockstep n (lockstep_round s)"

section \<open>The main function\<close>

datatype exit_status = EXIT_SUCCESS | EXIT_FAILURE

text \<open>
  \<open>main\<close> up to the call of \<open>run_scheduler\<close>: the arguments after the program name,
  the file system (the contents of a named file, if it can be opened) and whether
  \<open>pthread_create\<close> succeeds. The result is the exit status of an early return, or the
  state in which the scheduler loop and the I/O manager start.
\<close>

definition main_start ::
  "string list \<Rightarrow> (string \<Rightarrow> string option) \<Rightarrow> bool \<Rightarrow> exit_status + sched" where
  "main_start args files thread_created =
     (case args of
        [filename] \<Rightarrow>
          (case parse_input_file (files filename) of
             Inl e \<Rightarrow> Inl EXIT_FAILURE
           | Inr procs \<Rightarrow>
               if thread_created then Inr (initial_state procs) else Inl EXIT_FAILURE)
      | _ \<Rightarrow> Inl EXIT_FAILURE)"

section \<open>Specification predicates\<close>

text \<open>The order of the ready queue: no record is followed by one that
  \<open>insert_ready_queue\<close> would have put before it.\<close>
definition ordered :: "Process list \<Rightarrow> Queue \<Rightarrow> bool" where
  "ordered ps q = sorted_wrt (\<lambda>a b. \<not> should_insert (ps ! b) (ps ! a)) q"

definition at_state :: "ProcessState list \<Rightarrow> ProcessState \<Rightarrow> nat set" where
  "at_state st z = {j. j < length st \<and> st ! j = z}"

definition wf_parts ::
  "ProcessState list \<Rightarrow> bool list \<Rightarrow> Queue \<Rightarrow> Queue \<Rightarrow> nat option \<Rightarrow> bool" where
  "wf_parts st ar rq wq run \<longleftrightarrow>
     length ar = length st \<and>
     set rq = at_state st STATE_READY \<and>
     set wq = at_state st STATE_WAITING \<and>
     set_option run = at_state st STATE_RUNNING \<and>
     (\<forall>i<length st. ar ! i = (st ! i \<noteq> STATE_NEW)) \<and>
     distinct rq \<and> distinct wq"

definition wf_sched :: "sched \<Rightarrow> bool" where
  "wf_sched s = wf_parts (map state (all_processes s)) (map has_arrived (all_processes s))
     (ready_queue s) (waiting_queue s) (running_process s)"

definition admitted :: "Process \<Rightarrow> Process" where
  "admitted p = p\<lparr>has_arrived := True, state := STATE_READY, time_in_ready_queue := 0\<rparr>"

definition terminated :: "Process \<Rightarrow> int \<Rightarrow> Process" where
  "terminated p b =
     p\<lparr>remaining_time := c_int (remaining_time p - b), state := STATE_TERMINATED\<rparr>"

definition blocked :: "Process \<Rightarrow> int \<Rightarrow> int \<Rightarrow> Process" where
  "blocked p b clock = p\<lparr>remaining_time := c_int (remaining_time p - b),
     state := STATE_WAITING, io_completion_time := c_int (clock + io_time p)\<rparr>"

definition dispatched :: "Process \<Rightarrow> Process" where
  "dispatched p = p\<lparr>state := STATE_RUNNING\<rparr>"

definition sched_inv :: "sched \<Rightarrow> bool" where
  "sched_inv s \<longleftrightarrow> wf_sched s \<and> ordered (all_processes s) (ready_queue s)"

text \<open>The lines that \<open>parse_input_file\<close> counts, and the record it makes of one.\<close>
definition counted_lines :: "string \<Rightarrow> string list" where
  "counted_lines content = filter (\<lambda>line. strlen line > 1) (fgets_lines content)"

definition line_record :: "string \<Rightarrow> Process option" where
  "line_record line =
     (case sscanf_ints 6 (c_str line) of
        [pid', arrival, cpu_time, interval, io, priority'] \<Rightarrow>
          Some (init_process pid' arrival cpu_time interval io priority')
      | _ \<Rightarrow> None)"

text \<open>The values of the input fields of a record are values of type \<open>int\<close>.\<close>
definition is_int :: "int \<Rightarrow> bool" where
  "is_int k \<longleftrightarrow> INT_MIN \<le> k \<and> k \<le> INT_MAX"

definition typed :: "Process \<Rightarrow> bool" where
  "typed p \<longleftrightarrow> is_int (pid p) \<and> is_int (arrival_time p) \<and> is_int (cpu_execution_time p)
     \<and> is_int (interval_time p) \<and> is_int (io_time p) \<and> is_int (original_priority p)
     \<and> is_int (priority p)"

text \<open>What every record of a freshly parsed array satisfies.\<close>
definition fresh :: "Process \<Rightarrow> bool" where
  "fresh p \<longleftrightarrow> state p = STATE_NEW \<and> \<not> has_arrived p
     \<and> remaining_time p = cpu_execution_time p \<and> priority p = original_priority p
     \<and> time_in_ready_queue p = 0 \<and> typed p"

text \<open>The inputs the specification calls well-formed.\<close>
definition well_formed :: "Process list \<Rightarrow> bool" where
  "well_formed procs = list_all (\<lambda>p. cpu_execution_time p > 0 \<and> interval_time p > 0) procs"

text \<open>A concrete run used to instantiate the theorems: three records that arrive at
  time 0, after the first iteration of the scheduler.\<close>
definition demo_input :: string where
  "demo_input = ''1 0 300 100 50 5'' @ [CHR 0x0A] @ ''2 0 200 100 50 3'' @ [CHR 0x0A]
     @ ''3 0 100 100 50 3'' @ [CHR 0x0A]"
definition demo_procs :: "Process list" where
  "demo_procs = [init_process 1 0 300 100 50 5, init_process 2 0 200 100 50 3,
     init_process 3 0 100 100 50 3]"

definition demo_state :: sched where
  "demo_state = tick_body (clock_tick (initial_state demo_procs))"

text \<open>Three records of equal priority that arrive together: one runs, two wait.\<close>
definition starved_input :: string where
  "starved_input = ''1 0 300 300 10 5'' @ [CHR 0x0A] @ ''2 0 300 300 10 5'' @ [CHR 0x0A]
     @ ''3 0 300 300 10 5'' @ [CHR 0x0A]"

definition starved_procs :: "Process list" where
  "starved_procs = [init_process 1 0 300 300 10 5, init_process 2 0 300 300 10 5,
     init_process 3 0 300 300 10 5]"

text \<open>What aging has done to each record: its state, priority and accumulated time in the
  ready queue, with the clock, the ready queue and the printed lines.\<close>
definition aging_view ::
  "sched \<Rightarrow> int \<times> Queue \<times> (ProcessState \<times> int \<times> int) list \<times> event list" where
  "aging_view s = (current_clock s, ready_queue s,
     map (\<lambda>p. (state p, priority p, time_in_ready_queue p)) (all_processes s), printed s)"

text \<open>The intermediate states of one iteration of the scheduler.\<close>
definition after_arrivals :: "sched \<Rightarrow> sched" where
  "after_arrivals s = check_arrivals (current_clock s) [0..<length (all_processes s)] s"

definition after_aging :: "sched \<Rightarrow> sched" where
  "after_aging s = aging_check (current_clock s) (after_arrivals s)"

definition after_burst :: "sched \<Rightarrow> sched" where
  "after_burst s = finish_burst (current_clock s) (after_aging s)"

definition after_dispatch :: "sched \<Rightarrow> sched" where
  "after_dispatch s = dispatch (current_clock s) (after_burst s)"

text \<open>The fields that no operation writes after the array is loaded.\<close>
definition static :: "Process \<Rightarrow> int \<times> int \<times> int \<times> int \<times> int \<times> int" where
  "static p = (pid p, arrival_time p, cpu_execution_time p, interval_time p, io_time p,
     original_priority p)"

text \<open>
  The time spent Running, read off the printed lines: a burst is open from a
  \<open>Dispatched\<close> line to the next \<open>BlockedForIO\<close> or \<open>Terminated\<close> line and lasts
  the difference of their clocks. The state of the fold is the open burst (clock,
  remaining time and burst length of its \<open>Dispatched\<close> line) and the time of the bursts
  closed so far.
\<close>
fun account :: "(int \<times> int \<times> int) option \<times> int \<Rightarrow> event \<Rightarrow> (int \<times> int \<times> int) option \<times> int" where
  "account (opened, closed) (Dispatched clock _ _ rm burst) = (Some (clock, rm, burst), closed)"
| "account (Some (d, rm, burst), closed) (BlockedForIO clock _ _) = (None, closed + (clock - d))"
| "account (Some (d, rm, burst), closed) (Terminated clock _) = (None, closed + (clock - d))"
| "account st _ = st"



text \<open>The CPU time the records have consumed.\<close>
definition consumed :: "Process list \<Rightarrow> int" where
  "consumed ps = sum_list (map (\<lambda>p. cpu_execution_time p - remaining_time p) ps)"

text \<open>What the printed lines must account for in a state: the burst of the running
  record, dispatched at \<open>running_until\<close> minus its length, and the time consumed.\<close>
definition ledger :: "sched \<Rightarrow> (int \<times> int \<times> int) option \<times> int" where
  "ledger s =
     (map_option (\<lambda>r. (running_until s - dispatch_burst_time (all_processes s ! r),
                       remaining_time (all_processes s ! r),
                       dispatch_burst_time (all_processes s ! r))) (running_process s),
      consumed (all_processes s))"

text \<open>Per record: a positive burst interval, and a remaining time between 0 and the
  total, 0 exactly for a terminated record.\<close>
definition rem_ok :: "Process \<Rightarrow> bool" where
  "rem_ok p \<longleftrightarrow> 0 < interval_time p \<and> 0 \<le> remaining_time p
     \<and> remaining_time p \<le> cpu_execution_time p
     \<and> ((state p = STATE_TERMINATED) = (remaining_time p = 0))"

text \<open>No addition of the scheduler overflows at the clock of this state: the clock is
  not negative, and the end of a burst or of a wait that starts now is at most
  \<open>INT_MAX\<close>.\<close>
definition fits_record :: "int \<Rightarrow> Process \<Rightarrow> bool" where
  "fits_record clock p \<longleftrightarrow> clock + interval_time p \<le> INT_MAX \<and> clock + io_time p \<le> INT_MAX
     \<and> INT_MIN \<le> io_time p \<and> cpu_execution_time p \<le> INT_MAX"

definition fits :: "sched \<Rightarrow> bool" where
  "fits s \<longleftrightarrow> 0 \<le> current_clock s \<and> current_clock s \<le> INT_MAX
     \<and> list_all (fits_record (current_clock s)) (all_processes s)"

definition num_inv :: "sched \<Rightarrow> bool" where
  "num_inv s \<longleftrightarrow> fits s \<and> list_all rem_ok (all_processes s)
     \<and> (\<forall>r. running_process s = Some r \<longrightarrow>
          (if in_tick s then current_clock s \<le> running_until s
           else current_clock s < running_until s))
     \<and> foldl account (None, 0) (printed s) = ledger s
     \<and> (all_terminated s \<longrightarrow> all_done (all_processes s) \<and> running_process s = None
          \<and> \<not> in_tick s)"

text \<open>The part of a record that the numeric invariant reads.\<close>
definition rem_view :: "Process \<Rightarrow> int \<times> int \<times> int \<times> bool \<times> int" where
  "rem_view p = (interval_time p, remaining_time p, cpu_execution_time p,
     state p = STATE_TERMINATED, io_time p)"

text \<open>The numeric invariant without the flags: \<open>strict\<close> tells whether the end of the
  running burst lies strictly after the clock.\<close>
definition num_inv_at :: "bool \<Rightarrow> sched \<Rightarrow> bool" where
  "num_inv_at strict s \<longleftrightarrow> fits s \<and> list_all rem_ok (all_processes s)
     \<and> (\<forall>r. running_process s = Some r \<longrightarrow>
          (if strict then current_clock s < running_until s
           else current_clock s \<le> running_until s))
     \<and> foldl account (None, 0) (printed s) = ledger s"

definition finished_ok :: "sched \<Rightarrow> bool" where
  "finished_ok s \<longleftrightarrow> (all_terminated s \<longrightarrow>
     all_done (all_processes s) \<and> running_process s = None \<and> \<not> in_tick s)"



text \<open>The scenario of one record: 300 ms of CPU in bursts of 100 ms, 50 ms of I/O.\<close>
definition scenario_input :: string where
  "scenario_input = ''1 0 300 100 50 2''"

definition scenario_procs :: "Process list" where
  "scenario_procs = [init_process 1 0 300 100 50 2]"

fun is_dispatch :: "event \<Rightarrow> bool" where
  "is_dispatch (Dispatched _ _ _ _ _) = True"
| "is_dispatch _ = False"

fun is_io_block :: "event \<Rightarrow> bool" where
  "is_io_block (BlockedForIO _ _ _) = True"
| "is_io_block _ = False"

text \<open>What the scenario observes of a state: the printed lines, the numbers of dispatches
  and of I/O blocks among them, the states of the records and the finished flag.\<close>
definition scenario_view ::
  "sched \<Rightarrow> event list \<times> nat \<times> nat \<times> ProcessState list \<times> bool" where
  "scenario_view s = (printed s, length (filter is_dispatch (printed s)),
     length (filter is_io_block (printed s)), map state (all_processes s), all_terminated s)"

text \<open>
  A bound on the iterations that a record still needs in the lockstep execution: the
  time until its arrival, the rest of its burst or the rest of its wait, and for every
  millisecond of remaining CPU time the millisecond itself, the I/O wait that may follow
  it, and the iterations in which it changes queues.
\<close>
definition io_wait :: "Process \<Rightarrow> int" where
  "io_wait p = max 0 (io_time p)"

definition cost :: "int \<Rightarrow> int \<Rightarrow> Process \<Rightarrow> int" where
  "cost c u p =
     (case state p of
        STATE_NEW \<Rightarrow> max 0 (arrival_time p - c) + 1 + remaining_time p * (io_wait p + 3)
      | STATE_READY \<Rightarrow> remaining_time p * (io_wait p + 3)
      | STATE_RUNNING \<Rightarrow> max 0 (u - c) + io_wait p + 1
          + (remaining_time p - dispatch_burst_time p) * (io_wait p + 3)
      | STATE_WAITING \<Rightarrow>
          max 0 (io_completion_time p - c) + 1 + remaining_time p * (io_wait p + 3)
      | STATE_TERMINATED \<Rightarrow> 0)"





fun is_termination :: "event \<Rightarrow> bool" where
  "is_termination (Terminated _ _) = True"
| "is_termination _ = False"

text \<open>The number of bursts a record still needs: its remaining time divided by the burst
  interval, rounded up.\<close>
definition bursts_needed :: "Process \<Rightarrow> int" where
  "bursts_needed p = (remaining_time p + interval_time p - 1) div interval_time p"

definition terminated_count :: "Process list \<Rightarrow> int" where
  "terminated_count ps = sum_list (map (\<lambda>p. if state p = STATE_TERMINATED then 1 else 0) ps)"

text \<open>The printed dispatches, I/O blocks and terminations against the records: every
  dispatch is closed by one block or termination unless its burst is running; the
  closed bursts and the bursts still needed add up to \<open>needed\<close>; and there is one
  termination line per terminated record.\<close>
definition tally :: "int \<Rightarrow> sched \<Rightarrow> bool" where
  "tally needed s \<longleftrightarrow>
     int (length (filter is_dispatch (printed s)))
       = int (length (filter is_io_block (printed s)))
         + int (length (filter is_termination (printed s)))
         + (if running_process s = None then 0 else 1)
     \<and> int (length (filter is_io_block (printed s)))
         + int (length (filter is_termination (printed s)))
         + sum_list (map bursts_needed (all_processes s)) = needed
     \<and> int (length (filter is_termination (printed s))) = terminated_count (all_processes s)"

text \<open>The executions in which the scheduler does not increment a clock of \<open>bound\<close> or
  more: the clock stays at most \<open>bound\<close>.\<close>
inductive reachable_upto :: "int \<Rightarrow> sched \<Rightarrow> sched \<Rightarrow> bool"
  for bound :: int and s0 :: sched where
  upto_init: "reachable_upto bound s0 s0"
| upto_clock: "reachable_upto bound s0 s \<Longrightarrow> \<not> in_tick s \<Longrightarrow> \<not> all_terminated s
     \<Longrightarrow> current_clock s < bound \<Longrightarrow> reachable_upto bound s0 (clock_tick s)"
| upto_body: "reachable_upto bound s0 s \<Longrightarrow> in_tick s \<Longrightarrow> reachable_upto bound s0 (tick_body s)"
| upto_io: "reachable_upto bound s0 s \<Longrightarrow> 0 \<le> c \<Longrightarrow> c \<le> current_clock s
     \<Longrightarrow> reachable_upto bound s0 (io_manager_pass c s)"

text \<open>The inputs with room up to the clock \<open>bound\<close>: a burst or an I/O wait that starts
  at a clock of at most \<open>bound\<close> ends at a clock of at most \<open>INT_MAX\<close>.\<close>
definition room :: "int \<Rightarrow> Process list \<Rightarrow> bool" where
  "room bound procs \<longleftrightarrow> bound \<le> INT_MAX
     \<and> list_all (\<lambda>p. bound + interval_time p \<le> INT_MAX \<and> bound + io_time p \<le> INT_MAX) procs"








text \<open>A record with a negative priority.\<close>
definition negative_input :: string where
  "negative_input = ''1 0 3 2 1 -2''"

definition negative_procs :: "Process list" where
  "negative_procs = [init_process 1 0 3 2 1 (- 2)]"

text \<open>Two records of priority 5 that arrive together: the second waits alone in the
  ready queue while the first runs for 300 ms.\<close>
definition aging_input :: string where
  "aging_input = ''1 0 300 300 10 5'' @ [CHR 0x0A] @ ''2 0 300 300 10 5'' @ [CHR 0x0A]"

definition aging_procs :: "Process list" where
  "aging_procs = [init_process 1 0 300 300 10 5, init_process 2 0 300 300 10 5]"


section \<open>Arithmetic of \<open>int\<close>\<close>

lemma c_int_id: "INT_MIN \<le> k \<Longrightarrow> k \<le> INT_MAX \<Longrightarrow> c_int k = k"
  by (simp add: c_int_def INT_MIN_def INT_MAX_def)

lemma c_int_range: "INT_MIN \<le> c_int k" "c_int k \<le> INT_MAX"
  by (simp_all add: c_int_def INT_MIN_def INT_MAX_def)

lemma is_int_c_int [simp]: "is_int (c_int k)"
  by (simp add: is_int_def c_int_range)

section \<open>Properties of the queue operations\<close>

lemma collect_all_eq: "collect_all q acc = acc @ q"
proof (induction q arbitrary: acc)
  case Nil
  show ?case by (simp add: collect_all.simps is_empty_def)
next
  case (Cons p q)
  have "collect_all (p # q) acc = collect_all q (acc @ [p])"
    by (subst collect_all.simps) (simp add: is_empty_def)
  thus ?case by (simp add: Cons.IH)
qed

lemma set_insert_at: "set (insert_at ps p q) = insert p (set q)"
  by (induction q) auto

lemma length_insert_at: "length (insert_at ps p q) = Suc (length q)"
  by (induction q) auto

lemma distinct_insert_at: "distinct q \<Longrightarrow> p \<notin> set q \<Longrightarrow> distinct (insert_at ps p q)"
  by (induction q) (auto simp: set_insert_at)

lemma ordered_insert_at: "ordered ps q \<Longrightarrow> ordered ps (insert_at ps p q)"
  by (induction q) (auto simp: ordered_def set_insert_at should_insert_def split: if_splits)

lemma ordered_cong:
  "\<forall>i\<in>set q. priority (ps' ! i) = priority (ps ! i)
      \<and> remaining_time (ps' ! i) = remaining_time (ps ! i)
   \<Longrightarrow> ordered ps' q = ordered ps q"
  by (induction q) (auto simp: ordered_def should_insert_def)

lemma ordered_tl: "ordered ps (p # q) \<Longrightarrow> ordered ps q"
  by (simp add: ordered_def)

lemma ordered_remove1: "ordered ps q \<Longrightarrow> ordered ps (remove1 p q)"
  by (induction q) (auto simp: ordered_def dest: notin_set_remove1)

subsection \<open>insert_ready_queue\<close>

lemma insert_ready_queue_length [simp]:
  "length (fst (insert_ready_queue ps q p)) = length ps"
  by (simp add: insert_ready_queue_def Let_def)

lemma insert_ready_queue_nth:
  "i < length ps \<Longrightarrow> fst (insert_ready_queue ps q p) ! i =
     (if i = p then (ps ! i)\<lparr>time_in_ready_queue := 0\<rparr> else ps ! i)"
  by (simp add: insert_ready_queue_def Let_def)

lemma insert_ready_queue_set [simp]:
  "set (snd (insert_ready_queue ps q p)) = insert p (set q)"
  by (simp add: insert_ready_queue_def Let_def set_insert_at)

lemma insert_ready_queue_distinct:
  "distinct q \<Longrightarrow> p \<notin> set q \<Longrightarrow> distinct (snd (insert_ready_queue ps q p))"
  by (simp add: insert_ready_queue_def Let_def distinct_insert_at)

lemma insert_ready_queue_ordered:
  assumes "ordered ps q"
  shows "ordered (fst (insert_ready_queue ps q p)) (snd (insert_ready_queue ps q p))"
proof -
  let ?ps' = "ps[p := (ps ! p)\<lparr>time_in_ready_queue := 0\<rparr>]"
  have "ordered ?ps' q = ordered ps q"
    by (rule ordered_cong, cases "p < length ps") (auto simp: nth_list_update list_update_beyond)
  hence "ordered ?ps' (insert_at ?ps' p q)"
    using assms by (simp add: ordered_insert_at)
  thus ?thesis by (simp add: insert_ready_queue_def Let_def)
qed

subsection \<open>reinsert_all and resort_ready_queue\<close>

lemma reinsert_all_length [simp]:
  "length (fst (reinsert_all xs (ps, q))) = length ps"
proof (induction xs arbitrary: ps q)
  case Nil show ?case by simp
next
  case (Cons x xs)
  obtain ps1 q1 where e: "insert_ready_queue ps q x = (ps1, q1)" by force
  have "length ps1 = length ps" using insert_ready_queue_length [of ps q x] e by simp
  thus ?case using Cons.IH [of ps1 q1] e by simp
qed

lemma reinsert_all_nth:
  "i < length ps \<Longrightarrow> fst (reinsert_all xs (ps, q)) ! i =
     (if i \<in> set xs then (ps ! i)\<lparr>time_in_ready_queue := 0\<rparr> else ps ! i)"
proof (induction xs arbitrary: ps q)
  case Nil show ?case by simp
next
  case (Cons x xs)
  obtain ps1 q1 where e: "insert_ready_queue ps q x = (ps1, q1)" by force
  have l: "length ps1 = length ps" using insert_ready_queue_length [of ps q x] e by simp
  have n: "ps1 ! i = (if i = x then (ps ! i)\<lparr>time_in_ready_queue := 0\<rparr> else ps ! i)"
    using insert_ready_queue_nth [OF Cons.prems, of q x] e by simp
  have "fst (reinsert_all xs (ps1, q1)) ! i =
     (if i \<in> set xs then (ps1 ! i)\<lparr>time_in_ready_queue := 0\<rparr> else ps1 ! i)"
    using Cons.IH [of ps1 q1] Cons.prems l by simp
  thus ?case using e n by auto
qed

lemma reinsert_all_set [simp]:
  "set (snd (reinsert_all xs (ps, q))) = set xs \<union> set q"
proof (induction xs arbitrary: ps q)
  case Nil show ?case by simp
next
  case (Cons x xs)
  obtain ps1 q1 where e: "insert_ready_queue ps q x = (ps1, q1)" by force
  have "set q1 = insert x (set q)" using insert_ready_queue_set [of ps q x] e by simp
  thus ?case using Cons.IH [of ps1 q1] e by auto
qed

lemma reinsert_all_distinct:
  "distinct (xs @ q) \<Longrightarrow> distinct (snd (reinsert_all xs (ps, q)))"
proof (induction xs arbitrary: ps q)
  case Nil thus ?case by simp
next
  case (Cons x xs)
  obtain ps1 q1 where e: "insert_ready_queue ps q x = (ps1, q1)" by force
  have s: "set q1 = insert x (set q)" using insert_ready_queue_set [of ps q x] e by simp
  have d: "distinct q1"
    using insert_ready_queue_distinct [of q x ps] Cons.prems e by simp
  have "distinct (xs @ q1)" using Cons.prems s d by auto
  thus ?case using Cons.IH [of q1 ps1] e by simp
qed

lemma reinsert_all_ordered:
  "ordered ps q \<Longrightarrow>
   ordered (fst (reinsert_all xs (ps, q))) (snd (reinsert_all xs (ps, q)))"
proof (induction xs arbitrary: ps q)
  case Nil thus ?case by simp
next
  case (Cons x xs)
  obtain ps1 q1 where e: "insert_ready_queue ps q x = (ps1, q1)" by force
  have "ordered ps1 q1" using insert_ready_queue_ordered [OF Cons.prems, of x] e by simp
  thus ?case using Cons.IH [of ps1 q1] e by simp
qed

lemma resort_ready_queue_length [simp]:
  "length (fst (resort_ready_queue ps q)) = length ps"
  by (simp add: resort_ready_queue_def)

lemma resort_ready_queue_nth:
  "i < length ps \<Longrightarrow> fst (resort_ready_queue ps q) ! i =
     (if i \<in> set q \<and> 2 \<le> length q then (ps ! i)\<lparr>time_in_ready_queue := 0\<rparr> else ps ! i)"
  by (auto simp: resort_ready_queue_def collect_all_eq reinsert_all_nth)

lemma resort_ready_queue_set [simp]:
  "set (snd (resort_ready_queue ps q)) = set q"
  by (simp add: resort_ready_queue_def collect_all_eq)

lemma resort_ready_queue_distinct:
  "distinct q \<Longrightarrow> distinct (snd (resort_ready_queue ps q))"
  by (simp add: resort_ready_queue_def collect_all_eq reinsert_all_distinct)

lemma resort_ready_queue_ordered_big:
  "2 \<le> length q \<Longrightarrow>
   ordered (fst (resort_ready_queue ps q)) (snd (resort_ready_queue ps q))"
  using reinsert_all_ordered [of ps "[]" q]
  by (simp add: resort_ready_queue_def collect_all_eq ordered_def)

lemma ordered_short: "length q \<le> 1 \<Longrightarrow> ordered ps q"
  by (cases q) (auto simp: ordered_def)

lemma resort_ready_queue_ordered:
  "ordered (fst (resort_ready_queue ps q)) (snd (resort_ready_queue ps q))"
proof (cases "2 \<le> length q")
  case True thus ?thesis by (rule resort_ready_queue_ordered_big)
next
  case False
  thus ?thesis by (simp add: resort_ready_queue_def ordered_short)
qed

subsection \<open>update_aging\<close>

lemma update_aging_from_length [simp]:
  "length (update_aging_from e q ps) = length ps"
  by (induction q arbitrary: ps) auto

lemma update_aging_from_nth:
  "distinct q \<Longrightarrow> i < length ps \<Longrightarrow>
   update_aging_from e q ps ! i = (if i \<in> set q then age_process e (ps ! i) else ps ! i)"
proof (induction q arbitrary: ps)
  case Nil show ?case by simp
next
  case (Cons c q)
  have ih: "update_aging_from e q (ps[c := age_process e (ps ! c)]) ! i =
      (if i \<in> set q then age_process e (ps[c := age_process e (ps ! c)] ! i)
       else ps[c := age_process e (ps ! c)] ! i)"
    using Cons.IH [of "ps[c := age_process e (ps ! c)]"] Cons.prems by simp
  show ?case
  proof (cases "i = c")
    case True
    thus ?thesis using ih Cons.prems by simp
  next
    case False
    thus ?thesis using ih Cons.prems by simp
  qed
qed

lemma update_aging_length [simp]: "length (update_aging e ps q) = length ps"
  by (simp add: update_aging_def)

lemma update_aging_nth:
  "distinct q \<Longrightarrow> i < length ps \<Longrightarrow>
   update_aging e ps q ! i = (if i \<in> set q then age_process e (ps ! i) else ps ! i)"
  by (simp add: update_aging_def update_aging_from_nth)

lemma mem_at_state: "(i \<in> at_state st z) = (i < length st \<and> st ! i = z)"
  by (simp add: at_state_def)

lemma at_state_update:
  "i < length st \<Longrightarrow>
   at_state (st[i := x]) z = (if x = z then insert i (at_state st z) else at_state st z - {i})"
  by (auto simp: at_state_def nth_list_update)

lemma at_state_minus: "i < length st \<Longrightarrow> st ! i \<noteq> z \<Longrightarrow> at_state st z - {i} = at_state st z"
  by (auto simp: at_state_def)

lemma wf_parts_admit:
  assumes "wf_parts st ar rq wq run" "i < length st" "st ! i = STATE_NEW"
    "set rq' = insert i (set rq)" "distinct rq'"
  shows "wf_parts (st[i := STATE_READY]) (ar[i := True]) rq' wq run"
  using assms unfolding wf_parts_def
  by (simp add: at_state_update at_state_minus nth_list_update)

lemma wf_parts_frame:
  assumes "wf_parts st ar rq wq run" "set rq' = set rq" "distinct rq'"
  shows "wf_parts st ar rq' wq run"
  using assms unfolding wf_parts_def by simp

lemma wf_parts_run_iff:
  "wf_parts st ar rq wq run \<Longrightarrow> (run = Some r) = (r < length st \<and> st ! r = STATE_RUNNING)"
proof -
  assume "wf_parts st ar rq wq run"
  hence "set_option run = at_state st STATE_RUNNING" by (simp add: wf_parts_def)
  hence "(r \<in> set_option run) = (r \<in> at_state st STATE_RUNNING)" by simp
  thus ?thesis by (cases run) (auto simp: mem_at_state)
qed

lemma wf_parts_ready_iff:
  "wf_parts st ar rq wq run \<Longrightarrow> (i \<in> set rq) = (i < length st \<and> st ! i = STATE_READY)"
  unfolding wf_parts_def by (simp add: mem_at_state)

lemma wf_parts_waiting_iff:
  "wf_parts st ar rq wq run \<Longrightarrow> (i \<in> set wq) = (i < length st \<and> st ! i = STATE_WAITING)"
  unfolding wf_parts_def by (simp add: mem_at_state)

lemma wf_parts_dispatch:
  assumes "wf_parts st ar (r # q) wq None"
  shows "wf_parts (st[r := STATE_RUNNING]) ar q wq (Some r)"
proof -
  have r: "r < length st" "st ! r = STATE_READY"
    using wf_parts_ready_iff [OF assms, of r] by simp_all
  have "r \<notin> set q" "insert r (set q) = at_state st STATE_READY"
    using assms unfolding wf_parts_def by simp_all
  hence q: "set q = at_state st STATE_READY - {r}" by auto
  show ?thesis
    using assms r q unfolding wf_parts_def
    by (simp add: at_state_update at_state_minus nth_list_update)
qed

lemma wf_parts_terminate:
  assumes "wf_parts st ar rq wq (Some r)"
  shows "wf_parts (st[r := STATE_TERMINATED]) ar rq wq None"
proof -
  have r: "r < length st" "st ! r = STATE_RUNNING"
    using wf_parts_run_iff [OF assms, of r] by simp_all
  have "at_state st STATE_RUNNING = {r}" using assms unfolding wf_parts_def by simp
  thus ?thesis
    using assms r unfolding wf_parts_def
    by (simp add: at_state_update at_state_minus nth_list_update)
qed

lemma wf_parts_block:
  assumes "wf_parts st ar rq wq (Some r)"
  shows "wf_parts (st[r := STATE_WAITING]) ar rq (wq @ [r]) None"
proof -
  have r: "r < length st" "st ! r = STATE_RUNNING"
    using wf_parts_run_iff [OF assms, of r] by simp_all
  have "at_state st STATE_RUNNING = {r}" using assms unfolding wf_parts_def by simp
  moreover have "r \<notin> set wq" using wf_parts_waiting_iff [OF assms, of r] r by simp
  ultimately show ?thesis
    using assms r unfolding wf_parts_def
    by (simp add: at_state_update at_state_minus nth_list_update)
qed

lemma wf_parts_io:
  assumes "wf_parts st ar rq wq run" "c \<in> set wq"
    "set rq' = insert c (set rq)" "distinct rq'"
  shows "wf_parts (st[c := STATE_READY]) ar rq' (remove1 c wq) run"
proof -
  have c: "c < length st" "st ! c = STATE_WAITING"
    using wf_parts_waiting_iff [OF assms(1), of c] assms(2) by simp_all
  have d: "distinct wq" using assms(1) unfolding wf_parts_def by simp
  show ?thesis
    using assms c unfolding wf_parts_def
    by (simp add: at_state_update at_state_minus nth_list_update set_remove1_eq [OF d])
qed

subsection \<open>Effect of the operations on a projection of the process array\<close>

lemma map_update_same: "f p' = f (ps ! i) \<Longrightarrow> map f (ps[i := p']) = map f ps"
proof (cases "i < length ps")
  case True
  assume "f p' = f (ps ! i)"
  thus ?thesis using True by (simp add: list_eq_iff_nth_eq nth_list_update)
next
  case False
  thus ?thesis by (simp add: list_update_beyond)
qed

lemma insert_ready_queue_map:
  assumes "\<And>p. f (p\<lparr>time_in_ready_queue := 0\<rparr>) = f p"
  shows "map f (fst (insert_ready_queue ps q p)) = map f ps"
  by (simp add: insert_ready_queue_def Let_def map_update_same assms)

lemma reinsert_all_map:
  assumes "\<And>p. f (p\<lparr>time_in_ready_queue := 0\<rparr>) = f p"
  shows "map f (fst (reinsert_all xs (ps, q))) = map f ps"
proof (induction xs arbitrary: ps q)
  case Nil show ?case by simp
next
  case (Cons x xs)
  obtain ps1 q1 where e: "insert_ready_queue ps q x = (ps1, q1)" by force
  have "map f ps1 = map f ps" using insert_ready_queue_map [of f ps q x] assms e by simp
  thus ?case using Cons.IH [of ps1 q1] e by simp
qed

lemma resort_ready_queue_map:
  assumes "\<And>p. f (p\<lparr>time_in_ready_queue := 0\<rparr>) = f p"
  shows "map f (fst (resort_ready_queue ps q)) = map f ps"
  by (simp add: resort_ready_queue_def reinsert_all_map assms)

lemma update_aging_from_map:
  assumes "\<And>p. f (age_process e p) = f p"
  shows "map f (update_aging_from e q ps) = map f ps"
  by (induction q arbitrary: ps) (simp_all add: map_update_same assms)

lemma update_aging_map:
  assumes "\<And>p. f (age_process e p) = f p"
  shows "map f (update_aging e ps q) = map f ps"
  by (simp add: update_aging_def update_aging_from_map assms)

lemma age_process_fields [simp]:
  "state (age_process e p) = state p"
  "has_arrived (age_process e p) = has_arrived p"
  "remaining_time (age_process e p) = remaining_time p"
  "pid (age_process e p) = pid p"
  "arrival_time (age_process e p) = arrival_time p"
  "cpu_execution_time (age_process e p) = cpu_execution_time p"
  "interval_time (age_process e p) = interval_time p"
  "io_time (age_process e p) = io_time p"
  "original_priority (age_process e p) = original_priority p"
  "io_completion_time (age_process e p) = io_completion_time p"
  by (simp_all add: age_process_def Let_def)

subsection \<open>The operations, with the local bindings unfolded\<close>

lemma admit_eq:
  "admit clock i s =
     (if \<not> has_arrived (all_processes s ! i) \<and> arrival_time (all_processes s ! i) \<le> clock
      then s\<lparr>all_processes := (all_processes s)[i := admitted (all_processes s ! i)],
             ready_queue := insert_at ((all_processes s)[i := admitted (all_processes s ! i)])
                 i (ready_queue s),
             printed := printed s @ [Arrived clock (pid (all_processes s ! i)),
                                     MovedToReady clock (pid (all_processes s ! i))]\<rparr>
      else s)"
proof (cases "i < length (all_processes s)")
  case True
  thus ?thesis by (simp add: admit_def Let_def insert_ready_queue_def admitted_def)
next
  case False
  thus ?thesis
    by (simp add: admit_def Let_def insert_ready_queue_def admitted_def list_update_beyond)
qed

lemma aging_check_eq:
  "aging_check clock s =
     (if clock > last_aging_check s then
        s\<lparr>all_processes := fst (resort_ready_queue
              (update_aging (c_int (clock - last_aging_check s)) (all_processes s) (ready_queue s))
              (ready_queue s)),
          ready_queue := snd (resort_ready_queue
              (update_aging (c_int (clock - last_aging_check s)) (all_processes s) (ready_queue s))
              (ready_queue s)),
          last_aging_check := clock\<rparr>
      else s)"
  by (simp add: aging_check_def Let_def case_prod_beta)

lemma finish_burst_eq:
  "finish_burst clock s =
     (case running_process s of
        None \<Rightarrow> s
      | Some r \<Rightarrow>
          if clock \<ge> running_until s then
            if c_int (remaining_time (all_processes s ! r)
                 - resolved_burst_time clock (running_until s) (all_processes s ! r)) \<le> 0
            then s\<lparr>all_processes := (all_processes s)[r := terminated (all_processes s ! r)
                       (resolved_burst_time clock (running_until s) (all_processes s ! r))],
                   printed := printed s @ [Terminated clock (pid (all_processes s ! r))],
                   running_process := None\<rparr>
            else s\<lparr>all_processes := (all_processes s)[r := blocked (all_processes s ! r)
                       (resolved_burst_time clock (running_until s) (all_processes s ! r)) clock],
                   printed := printed s @ [BlockedForIO clock (pid (all_processes s ! r))
                       (io_time (all_processes s ! r))],
                   waiting_queue := waiting_queue s @ [r],
                   running_process := None\<rparr>
          else s)"
  by (simp add: finish_burst_def Let_def terminated_def blocked_def enqueue_def
      split: option.split)

lemma dispatch_eq:
  "dispatch clock s =
     (case ready_queue s of
        [] \<Rightarrow> s
      | r # q \<Rightarrow>
         if running_process s = None then
           s\<lparr>ready_queue := q,
             all_processes := (all_processes s)[r := dispatched (all_processes s ! r)],
             running_process := Some r,
             running_until := c_int (clock + dispatch_burst_time (all_processes s ! r)),
             printed := printed s @
               [Dispatched clock (pid (all_processes s ! r)) (priority (all_processes s ! r))
                  (remaining_time (all_processes s ! r))
                  (dispatch_burst_time (all_processes s ! r))]\<rparr>
         else s)"
  by (simp add: dispatch_def Let_def is_empty_def dispatched_def dispatch_burst_time_def
      split: list.split)

lemma complete_io_eq:
  "complete_io clock c s =
     s\<lparr>waiting_queue := remove1 c (waiting_queue s),
       all_processes := (all_processes s)
          [c := (all_processes s ! c)\<lparr>state := STATE_READY, time_in_ready_queue := 0\<rparr>],
       ready_queue := insert_at ((all_processes s)
          [c := (all_processes s ! c)\<lparr>state := STATE_READY, time_in_ready_queue := 0\<rparr>])
          c (ready_queue s),
       printed := printed s @ [IOFinished clock (pid (all_processes s ! c)),
                               MovedToReady clock (pid (all_processes s ! c))]\<rparr>"
proof (cases "c < length (all_processes s)")
  case True
  thus ?thesis
    by (simp add: complete_io_def Let_def insert_ready_queue_def remove_from_queue_def)
next
  case False
  thus ?thesis
    by (simp add: complete_io_def Let_def insert_ready_queue_def remove_from_queue_def
        list_update_beyond)
qed

subsection \<open>The structural invariant\<close>

lemma ordered_update_keys:
  "priority p' = priority (ps ! i) \<Longrightarrow> remaining_time p' = remaining_time (ps ! i) \<Longrightarrow>
   ordered (ps[i := p']) q = ordered ps q"
  by (rule ordered_cong, cases "i < length ps") (auto simp: nth_list_update list_update_beyond)

lemma ordered_update_other:
  "i \<notin> set q \<Longrightarrow> ordered (ps[i := p']) q = ordered ps q"
  by (rule ordered_cong) (metis nth_list_update_neq)

lemma map_state_update: "map state (ps[i := p']) = (map state ps)[i := state p']"
  by (rule map_update)

lemma map_has_arrived_update:
  "map has_arrived (ps[i := p']) = (map has_arrived ps)[i := has_arrived p']"
  by (rule map_update)

lemma wf_sched_ready: "wf_sched s \<Longrightarrow>
  (i \<in> set (ready_queue s)) = (i < length (all_processes s) \<and> state (all_processes s ! i) = STATE_READY)"
  using wf_parts_ready_iff [of "map state (all_processes s)" _ _ _ _ i]
  by (auto simp: wf_sched_def)

lemma wf_sched_waiting: "wf_sched s \<Longrightarrow>
  (i \<in> set (waiting_queue s)) = (i < length (all_processes s) \<and> state (all_processes s ! i) = STATE_WAITING)"
  using wf_parts_waiting_iff [of "map state (all_processes s)" _ _ _ _ i]
  by (auto simp: wf_sched_def)

lemma wf_sched_running: "wf_sched s \<Longrightarrow>
  (running_process s = Some i) = (i < length (all_processes s) \<and> state (all_processes s ! i) = STATE_RUNNING)"
  using wf_parts_run_iff [of "map state (all_processes s)" _ _ _ _ i]
  by (auto simp: wf_sched_def)

lemma wf_sched_arrived: "wf_sched s \<Longrightarrow> i < length (all_processes s) \<Longrightarrow>
  has_arrived (all_processes s ! i) = (state (all_processes s ! i) \<noteq> STATE_NEW)"
  by (simp add: wf_sched_def wf_parts_def)

lemma wf_sched_distinct: "wf_sched s \<Longrightarrow> distinct (ready_queue s) \<and> distinct (waiting_queue s)"
  by (simp add: wf_sched_def wf_parts_def)

lemma sched_inv_admit:
  assumes "sched_inv s" "i < length (all_processes s)"
  shows "sched_inv (admit clock i s)"
proof (cases "\<not> has_arrived (all_processes s ! i) \<and> arrival_time (all_processes s ! i) \<le> clock")
  case False
  thus ?thesis using assms(1) by (auto simp: admit_eq)
next
  case True
  let ?ps = "all_processes s"
  let ?ps' = "?ps[i := admitted (?ps ! i)]"
  have wf: "wf_sched s" and ord: "ordered ?ps (ready_queue s)"
    using assms(1) by (simp_all add: sched_inv_def)
  have new: "state (?ps ! i) = STATE_NEW"
    using wf_sched_arrived [OF wf assms(2)] True by simp
  have notin: "i \<notin> set (ready_queue s)" using wf_sched_ready [OF wf, of i] new by simp
  have d: "distinct (ready_queue s)" using wf_sched_distinct [OF wf] by simp
  have "wf_parts ((map state ?ps)[i := STATE_READY]) ((map has_arrived ?ps)[i := True])
          (insert_at ?ps' i (ready_queue s)) (waiting_queue s) (running_process s)"
  proof (rule wf_parts_admit)
  qed (use wf assms(2) new notin d in
      \<open>simp_all add: wf_sched_def set_insert_at distinct_insert_at\<close>)
  hence 1: "wf_sched (admit clock i s)"
    using True by (simp add: admit_eq wf_sched_def map_state_update map_has_arrived_update admitted_def)
  have "ordered ?ps' (ready_queue s)" using ord notin by (simp add: ordered_update_other)
  hence "ordered ?ps' (insert_at ?ps' i (ready_queue s))" by (rule ordered_insert_at)
  hence 2: "ordered (all_processes (admit clock i s)) (ready_queue (admit clock i s))"
    using True by (simp add: admit_eq)
  show ?thesis using 1 2 by (simp add: sched_inv_def)
qed

lemma admit_length [simp]: "length (all_processes (admit clock i s)) = length (all_processes s)"
  by (simp add: admit_eq)

lemma check_arrivals_length [simp]:
  "length (all_processes (check_arrivals clock xs s)) = length (all_processes s)"
  by (induction xs arbitrary: s) simp_all

lemma sched_inv_check_arrivals:
  "sched_inv s \<Longrightarrow> \<forall>i\<in>set xs. i < length (all_processes s) \<Longrightarrow>
   sched_inv (check_arrivals clock xs s)"
proof (induction xs arbitrary: s)
  case Nil thus ?case by simp
next
  case (Cons x xs)
  have "sched_inv (admit clock x s)" using Cons.prems by (simp add: sched_inv_admit)
  thus ?case using Cons.IH [of "admit clock x s"] Cons.prems by simp
qed

lemma sched_inv_aging_check:
  assumes "sched_inv s"
  shows "sched_inv (aging_check clock s)"
proof (cases "clock > last_aging_check s")
  case False
  thus ?thesis using assms by (simp add: aging_check_eq)
next
  case True
  let ?ps1 = "update_aging (c_int (clock - last_aging_check s)) (all_processes s) (ready_queue s)"
  let ?r = "resort_ready_queue ?ps1 (ready_queue s)"
  have wf: "wf_sched s" using assms by (simp add: sched_inv_def)
  have st: "map state (fst ?r) = map state (all_processes s)"
    by (simp add: resort_ready_queue_map update_aging_map)
  have ar: "map has_arrived (fst ?r) = map has_arrived (all_processes s)"
    by (simp add: resort_ready_queue_map update_aging_map)
  have d: "distinct (snd ?r)"
    using wf_sched_distinct [OF wf] by (simp add: resort_ready_queue_distinct)
  have "wf_parts (map state (all_processes s)) (map has_arrived (all_processes s))
          (snd ?r) (waiting_queue s) (running_process s)"
  proof (rule wf_parts_frame [where rq = "ready_queue s"])
  qed (use wf d in \<open>simp_all add: wf_sched_def\<close>)
  hence 1: "wf_sched (aging_check clock s)"
    using True st ar by (simp add: aging_check_eq wf_sched_def)
  have 2: "ordered (all_processes (aging_check clock s)) (ready_queue (aging_check clock s))"
    using True by (simp add: aging_check_eq resort_ready_queue_ordered)
  show ?thesis using 1 2 by (simp add: sched_inv_def)
qed

lemma sched_inv_finish_burst:
  assumes "sched_inv s"
  shows "sched_inv (finish_burst clock s)"
proof (cases "running_process s")
  case None
  thus ?thesis using assms by (simp add: finish_burst_eq)
next
  case (Some r)
  have wf: "wf_sched s" and ord: "ordered (all_processes s) (ready_queue s)"
    using assms by (simp_all add: sched_inv_def)
  have r: "r < length (all_processes s)" "state (all_processes s ! r) = STATE_RUNNING"
    using wf_sched_running [OF wf, of r] Some by simp_all
  have notin: "r \<notin> set (ready_queue s)" using wf_sched_ready [OF wf, of r] r by simp
  have wp: "wf_parts (map state (all_processes s)) (map has_arrived (all_processes s))
          (ready_queue s) (waiting_queue s) (Some r)"
    using wf Some by (simp add: wf_sched_def)
  show ?thesis
    unfolding sched_inv_def wf_sched_def finish_burst_eq
    using Some ord notin wf_parts_terminate [OF wp] wf_parts_block [OF wp] wp
    by (simp add: map_state_update terminated_def blocked_def ordered_update_other map_update_same)
qed

lemma sched_inv_dispatch:
  assumes "sched_inv s"
  shows "sched_inv (dispatch clock s)"
proof (cases "ready_queue s")
  case Nil
  thus ?thesis using assms by (simp add: dispatch_eq)
next
  case (Cons r q)
  show ?thesis
  proof (cases "running_process s")
    case (Some x)
    thus ?thesis using assms Cons by (simp add: dispatch_eq)
  next
    case None
    have wf: "wf_sched s" and ord: "ordered (all_processes s) (ready_queue s)"
      using assms by (simp_all add: sched_inv_def)
    have wp: "wf_parts (map state (all_processes s)) (map has_arrived (all_processes s))
          (r # q) (waiting_queue s) None"
      using wf Cons None by (simp add: wf_sched_def)
    have "ordered (all_processes s) q" using ord Cons ordered_tl by simp
    thus ?thesis
      unfolding sched_inv_def wf_sched_def dispatch_eq
      using Cons None wf_parts_dispatch [OF wp]
      by (simp add: map_state_update dispatched_def ordered_update_keys map_update_same)
  qed
qed

lemma sched_inv_completion_check: "sched_inv s \<Longrightarrow> sched_inv (completion_check s)"
  by (auto simp: completion_check_def sched_inv_def wf_sched_def wf_parts_def)

lemma sched_inv_clock_tick: "sched_inv s \<Longrightarrow> sched_inv (clock_tick s)"
  by (simp add: clock_tick_def sched_inv_def wf_sched_def)

lemma sched_inv_in_tick: "sched_inv s \<Longrightarrow> sched_inv (s\<lparr>in_tick := b\<rparr>)"
  by (simp add: sched_inv_def wf_sched_def)

lemma sched_inv_tick_body: "sched_inv s \<Longrightarrow> sched_inv (tick_body s)"
proof -
  assume a: "sched_inv s"
  let ?c = "current_clock s"
  have "sched_inv (check_arrivals ?c [0..<length (all_processes s)] s)"
    using a by (rule sched_inv_check_arrivals) simp
  hence "sched_inv (aging_check ?c (check_arrivals ?c [0..<length (all_processes s)] s))"
    by (rule sched_inv_aging_check)
  hence "sched_inv (finish_burst ?c
      (aging_check ?c (check_arrivals ?c [0..<length (all_processes s)] s)))"
    by (rule sched_inv_finish_burst)
  hence "sched_inv (dispatch ?c (finish_burst ?c
      (aging_check ?c (check_arrivals ?c [0..<length (all_processes s)] s))))"
    by (rule sched_inv_dispatch)
  hence "sched_inv (completion_check (dispatch ?c (finish_burst ?c
      (aging_check ?c (check_arrivals ?c [0..<length (all_processes s)] s)))))"
    by (rule sched_inv_completion_check)
  thus ?thesis unfolding tick_body_def Let_def by (rule sched_inv_in_tick)
qed

lemma sched_inv_complete_io:
  assumes "sched_inv s" "c \<in> set (waiting_queue s)"
  shows "sched_inv (complete_io clock c s)"
proof -
  let ?ps = "all_processes s"
  let ?ps' = "?ps[c := (?ps ! c)\<lparr>state := STATE_READY, time_in_ready_queue := 0\<rparr>]"
  have wf: "wf_sched s" and ord: "ordered ?ps (ready_queue s)"
    using assms(1) by (simp_all add: sched_inv_def)
  have c: "c < length ?ps" "state (?ps ! c) = STATE_WAITING"
    using wf_sched_waiting [OF wf, of c] assms(2) by simp_all
  have notin: "c \<notin> set (ready_queue s)" using wf_sched_ready [OF wf, of c] c by simp
  have d: "distinct (ready_queue s)" using wf_sched_distinct [OF wf] by simp
  have "wf_parts ((map state ?ps)[c := STATE_READY]) (map has_arrived ?ps)
          (insert_at ?ps' c (ready_queue s)) (remove1 c (waiting_queue s)) (running_process s)"
  proof (rule wf_parts_io)
  qed (use wf assms(2) notin d in
      \<open>simp_all add: wf_sched_def set_insert_at distinct_insert_at\<close>)
  hence 1: "wf_sched (complete_io clock c s)"
    by (simp add: complete_io_eq wf_sched_def map_state_update map_update_same)
  have "ordered ?ps' (ready_queue s)" using ord notin by (simp add: ordered_update_other)
  hence "ordered ?ps' (insert_at ?ps' c (ready_queue s))" by (rule ordered_insert_at)
  hence 2: "ordered (all_processes (complete_io clock c s)) (ready_queue (complete_io clock c s))"
    by (simp add: complete_io_eq)
  show ?thesis using 1 2 by (simp add: sched_inv_def)
qed

lemma sched_inv_io_scan:
  "sched_inv s \<Longrightarrow> distinct xs \<Longrightarrow> set xs \<subseteq> set (waiting_queue s) \<Longrightarrow>
   sched_inv (io_scan clock xs s)"
proof (induction xs arbitrary: s)
  case Nil thus ?case by simp
next
  case (Cons c xs)
  show ?case
  proof (cases "clock \<ge> io_completion_time (all_processes s ! c)")
    case False
    thus ?thesis using Cons by simp
  next
    case True
    have 1: "sched_inv (complete_io clock c s)"
      using Cons.prems by (simp add: sched_inv_complete_io)
    have "distinct (waiting_queue s)"
      using Cons.prems(1) wf_sched_distinct by (simp add: sched_inv_def)
    hence 2: "set xs \<subseteq> set (waiting_queue (complete_io clock c s))"
      using Cons.prems by (auto simp: complete_io_eq)
    show ?thesis using True Cons.IH [OF 1 _ 2] Cons.prems(2) by simp
  qed
qed

lemma sched_inv_io_manager_pass: "sched_inv s \<Longrightarrow> sched_inv (io_manager_pass c s)"
proof -
  assume a: "sched_inv s"
  hence "distinct (waiting_queue s)" using wf_sched_distinct [of s] by (simp add: sched_inv_def)
  thus ?thesis unfolding io_manager_pass_def using a by (simp add: sched_inv_io_scan)
qed

section \<open>Parsing\<close>

lemma scan_int_is_int: "scan_int s = Some (v, r) \<Longrightarrow> is_int v"
  by (auto simp: scan_int_def store_int_def split: list.splits if_splits option.splits)

lemma sscanf_ints_is_int: "list_all is_int (sscanf_ints n s)"
  by (induction n arbitrary: s) (auto simp: scan_int_is_int split: option.splits)

lemma line_record_fresh: "line_record line = Some p \<Longrightarrow> fresh p"
  using sscanf_ints_is_int [of 6 "c_str line"]
  by (auto simp: line_record_def fresh_def init_process_def typed_def split: list.splits)

lemma read_processes_step:
  "strlen line > 1 \<Longrightarrow> length procs < n \<Longrightarrow>
   read_processes n (line # rest) procs =
     (case line_record line of
        Some p \<Rightarrow> read_processes n rest (procs @ [p])
      | None \<Rightarrow> Inl (InvalidFormat (length procs + 1)))"
  by (simp add: line_record_def split: list.splits)

lemma read_processes_char:
  "n = length procs + length (filter (\<lambda>line. strlen line > 1) ls) \<Longrightarrow>
   read_processes n ls procs =
     (if list_all (\<lambda>l. line_record l \<noteq> None) (filter (\<lambda>line. strlen line > 1) ls)
      then Inr (procs @ map (the \<circ> line_record) (filter (\<lambda>line. strlen line > 1) ls))
      else Inl (InvalidFormat (length procs + 1 +
             length (takeWhile (\<lambda>l. line_record l \<noteq> None)
                (filter (\<lambda>line. strlen line > 1) ls)))))"
proof (induction ls arbitrary: procs)
  case Nil
  show ?case by simp
next
  case (Cons line rest)
  show ?case
  proof (cases "strlen line > 1")
    case False
    hence "read_processes n (line # rest) procs =
       (if \<not> length procs < n then Inr procs else read_processes n rest procs)"
      by simp
    moreover have "\<not> length procs < n \<Longrightarrow> filter (\<lambda>line. strlen line > 1) rest = []"
      using Cons.prems False by simp
    ultimately show ?thesis using Cons.IH [of procs] Cons.prems False by auto
  next
    case True
    hence lt: "length procs < n" using Cons.prems by simp
    show ?thesis
    proof (cases "line_record line")
      case None
      thus ?thesis using True lt by (simp add: read_processes_step del: read_processes.simps)
    next
      case (Some p)
      have "n = length (procs @ [p]) + length (filter (\<lambda>line. strlen line > 1) rest)"
        using Cons.prems True by simp
      from Cons.IH [OF this] show ?thesis
        using True lt Some by (simp add: read_processes_step del: read_processes.simps)
    qed
  qed
qed

lemma parse_input_file_char:
  "parse_input_file (Some content) =
     (if counted_lines content = [] then Inl NoProcesses
      else if list_all (\<lambda>l. line_record l \<noteq> None) (counted_lines content)
      then Inr (map (the \<circ> line_record) (counted_lines content))
      else Inl (InvalidFormat
             (Suc (length (takeWhile (\<lambda>l. line_record l \<noteq> None) (counted_lines content))))))"
  using read_processes_char [of _ "[]" "fgets_lines content"]
  by (simp add: parse_input_file_def counted_lines_def Let_def)

lemma parse_input_file_fresh:
  assumes "parse_input_file f = Inr procs"
  shows "list_all fresh procs \<and> procs \<noteq> []"
proof (cases f)
  case None
  thus ?thesis using assms by (simp add: parse_input_file_def)
next
  case (Some content)
  have ok: "list_all (\<lambda>l. line_record l \<noteq> None) (counted_lines content)"
    and ne: "counted_lines content \<noteq> []"
    and eq: "procs = map (the \<circ> line_record) (counted_lines content)"
    using assms Some by (auto simp: parse_input_file_char split: if_splits)
  have "list_all fresh (map (the \<circ> line_record) (counted_lines content))"
    using ok by (induction "counted_lines content") (auto simp: list_all_iff line_record_fresh)
  thus ?thesis using eq ne by simp
qed

lemma main_start_initial:
  assumes "main_start args files tc = Inr s0"
  shows "\<exists>procs. s0 = initial_state procs \<and> list_all fresh procs \<and> procs \<noteq> []"
proof -
  obtain filename procs where "parse_input_file (files filename) = Inr procs"
    "s0 = initial_state procs"
    using assms
    by (auto simp: main_start_def split: list.splits sum.splits if_splits)
  thus ?thesis using parse_input_file_fresh by blast
qed

lemma demo_parse: "parse_input_file (Some demo_input) = Inr demo_procs"
  by code_simp

lemma demo_main:
  "main_start [''input.txt''] (\<lambda>name. Some demo_input) True = Inr (initial_state demo_procs)"
  by (simp add: main_start_def demo_parse)

lemma demo_reachable: "reachable (initial_state demo_procs) demo_state"
  unfolding demo_state_def
  by (intro reach_body reach_clock reach_init) (simp_all add: initial_state_def clock_tick_def)

lemma demo_state_value:
  "demo_state =
     \<lparr>all_processes =
        [\<lparr>pid = 1, arrival_time = 0, cpu_execution_time = 300, remaining_time = 300,
          interval_time = 100, io_time = 50, priority = 5, original_priority = 5,
          state = STATE_READY, time_in_ready_queue = 0, io_completion_time = 0,
          has_arrived = True\<rparr>,
         \<lparr>pid = 2, arrival_time = 0, cpu_execution_time = 200, remaining_time = 200,
          interval_time = 100, io_time = 50, priority = 3, original_priority = 3,
          state = STATE_READY, time_in_ready_queue = 0, io_completion_time = 0,
          has_arrived = True\<rparr>,
         \<lparr>pid = 3, arrival_time = 0, cpu_execution_time = 100, remaining_time = 100,
          interval_time = 100, io_time = 50, priority = 3, original_priority = 3,
          state = STATE_RUNNING, time_in_ready_queue = 0, io_completion_time = 0,
          has_arrived = True\<rparr>],
      current_clock = 1, all_terminated = False, ready_queue = [1, 0], waiting_queue = [],
      running_process = Some 2, running_until = 101, last_aging_check = 1,
      printed = [Arrived 1 1, MovedToReady 1 1, Arrived 1 2, MovedToReady 1 2,
        Arrived 1 3, MovedToReady 1 3, Dispatched 1 3 3 100 100],
      in_tick = False\<rparr>"
  by code_simp

section \<open>Invariants of every reachable state\<close>

lemma sched_inv_initial:
  assumes "list_all fresh procs"
  shows "sched_inv (initial_state procs)"
proof -
  have st: "\<forall>i<length procs. state (procs ! i) = STATE_NEW \<and> \<not> has_arrived (procs ! i)"
    using assms by (simp add: list_all_length fresh_def)
  hence "\<And>z. z \<noteq> STATE_NEW \<Longrightarrow> at_state (map state procs) z = {}"
    by (auto simp: at_state_def)
  thus ?thesis using st
    by (simp add: sched_inv_def wf_sched_def wf_parts_def initial_state_def ordered_def)
qed

lemma reachable_sched_inv:
  assumes "reachable s0 s" "sched_inv s0"
  shows "sched_inv s"
  using assms
proof (induction rule: reachable.induct)
  case reach_init thus ?case .
next
  case (reach_clock s) thus ?case by (simp add: sched_inv_clock_tick)
next
  case (reach_body s) thus ?case by (simp add: sched_inv_tick_body)
next
  case (reach_io s c) thus ?case by (simp add: sched_inv_io_manager_pass)
qed

lemma main_start_sched_inv:
  assumes "main_start args files tc = Inr s0" "reachable s0 s"
  shows "sched_inv s"
proof -
  obtain procs where "s0 = initial_state procs" "list_all fresh procs"
    using main_start_initial [OF assms(1)] by blast
  hence "sched_inv s0" by (simp add: sched_inv_initial)
  thus ?thesis using assms(2) by (rule reachable_sched_inv [rotated])
qed

lemma ordered_pairwise:
  "ordered ps q \<longleftrightarrow>
     (\<forall>i j. i < length q \<and> j < length q \<and> should_insert (ps ! (q ! i)) (ps ! (q ! j))
        \<longrightarrow> i < j)"
proof
  assume o: "ordered ps q"
  show "\<forall>i j. i < length q \<and> j < length q \<and> should_insert (ps ! (q ! i)) (ps ! (q ! j))
        \<longrightarrow> i < j"
  proof (intro allI impI)
    fix i j
    assume a: "i < length q \<and> j < length q \<and> should_insert (ps ! (q ! i)) (ps ! (q ! j))"
    show "i < j"
    proof (rule ccontr)
      assume "\<not> i < j"
      hence "j < i \<or> j = i" by arith
      thus False
      proof
        assume "j < i"
        hence "\<not> should_insert (ps ! (q ! i)) (ps ! (q ! j))"
          using o a by (auto simp: ordered_def sorted_wrt_iff_nth_less)
        thus False using a by simp
      next
        assume "j = i"
        thus False using a by (simp add: should_insert_def)
      qed
    qed
  qed
next
  assume p: "\<forall>i j. i < length q \<and> j < length q \<and> should_insert (ps ! (q ! i)) (ps ! (q ! j))
        \<longrightarrow> i < j"
  show "ordered ps q"
    unfolding ordered_def sorted_wrt_iff_nth_less
  proof (intro allI impI)
    fix i j
    assume "i < j" "j < length q"
    thus "\<not> should_insert (ps ! (q ! j)) (ps ! (q ! i))"
      using p [rule_format, of j i] by auto
  qed
qed

lemma resort_after_aging_resets_timer:
  assumes "2 \<le> length q" "i \<in> set q" "i < length ps"
  shows "time_in_ready_queue (fst (resort_ready_queue (update_aging e ps q) q) ! i) = 0"
  using assms by (simp add: resort_ready_queue_nth)

lemma resort_after_aging_keeps_single:
  assumes "length q \<le> 1"
  shows "resort_ready_queue (update_aging e ps q) q = (update_aging e ps q, q)"
  using assms by (simp add: resort_ready_queue_def)

lemma filter_unique_length:
  "\<forall>i j. i < length xs \<and> j < length xs \<and> P (xs ! i) \<and> P (xs ! j) \<longrightarrow> i = j
   \<Longrightarrow> length (filter P xs) \<le> 1"
proof (induction xs)
  case Nil show ?case by simp
next
  case (Cons x xs)
  have ih: "length (filter P xs) \<le> 1"
  proof (rule Cons.IH, intro allI impI)
    fix i j assume "i < length xs \<and> j < length xs \<and> P (xs ! i) \<and> P (xs ! j)"
    thus "i = j" using Cons.prems [rule_format, of "Suc i" "Suc j"] by simp
  qed
  show ?case
  proof (cases "P x")
    case False thus ?thesis using ih by simp
  next
    case True
    have "filter P xs = []"
    proof (rule ccontr)
      assume "filter P xs \<noteq> []"
      then obtain y where "y \<in> set xs" "P y"
        by (metis filter_False)
      then obtain k where "k < length xs" "xs ! k = y" by (auto simp: in_set_conv_nth)
      thus False using Cons.prems [rule_format, of 0 "Suc k"] True \<open>P y\<close> by simp
    qed
    thus ?thesis using True by simp
  qed
qed

section \<open>Frame lemmas: what an operation leaves unchanged\<close>

lemma map_eq_nth: "map f ps' = map f ps \<Longrightarrow> i < length ps \<Longrightarrow> f (ps' ! i) = f (ps ! i)"
  by (metis length_map nth_map)

lemma admit_map:
  assumes "wf_sched s" "i < length (all_processes s)"
    and "\<And>p. state p = STATE_NEW \<Longrightarrow> f (admitted p) = f p"
  shows "map f (all_processes (admit clock i s)) = map f (all_processes s)"
proof (cases "\<not> has_arrived (all_processes s ! i) \<and> arrival_time (all_processes s ! i) \<le> clock")
  case False
  thus ?thesis by (auto simp: admit_eq)
next
  case True
  hence "state (all_processes s ! i) = STATE_NEW"
    using wf_sched_arrived [OF assms(1,2)] by simp
  thus ?thesis using True by (simp add: admit_eq map_update_same assms(3))
qed

lemma check_arrivals_map:
  assumes "\<And>p. state p = STATE_NEW \<Longrightarrow> f (admitted p) = f p"
  shows "sched_inv s \<Longrightarrow> \<forall>i\<in>set xs. i < length (all_processes s) \<Longrightarrow>
    map f (all_processes (check_arrivals clock xs s)) = map f (all_processes s)"
proof (induction xs arbitrary: s)
  case Nil show ?case by simp
next
  case (Cons x xs)
  have 1: "sched_inv (admit clock x s)" using Cons.prems by (simp add: sched_inv_admit)
  have 2: "map f (all_processes (admit clock x s)) = map f (all_processes s)"
    using Cons.prems assms by (simp add: admit_map sched_inv_def)
  show ?case using Cons.IH [OF 1] Cons.prems 2 by simp
qed

lemma aging_check_map:
  assumes "\<And>p. f (p\<lparr>time_in_ready_queue := 0\<rparr>) = f p"
    and "\<And>p e. f (age_process e p) = f p"
  shows "map f (all_processes (aging_check clock s)) = map f (all_processes s)"
  by (simp add: aging_check_eq resort_ready_queue_map update_aging_map assms)

lemma finish_burst_map:
  assumes "wf_sched s"
    and "\<And>p b. state p = STATE_RUNNING \<Longrightarrow> f (terminated p b) = f p"
    and "\<And>p b c. state p = STATE_RUNNING \<Longrightarrow> f (blocked p b c) = f p"
  shows "map f (all_processes (finish_burst clock s)) = map f (all_processes s)"
proof (cases "running_process s")
  case None
  thus ?thesis by (simp add: finish_burst_eq)
next
  case (Some r)
  hence "state (all_processes s ! r) = STATE_RUNNING"
    using wf_sched_running [OF assms(1), of r] by simp
  thus ?thesis using Some by (simp add: finish_burst_eq map_update_same assms(2,3))
qed

lemma dispatch_map:
  assumes "wf_sched s"
    and "\<And>p. state p = STATE_READY \<Longrightarrow> f (dispatched p) = f p"
  shows "map f (all_processes (dispatch clock s)) = map f (all_processes s)"
proof (cases "ready_queue s")
  case Nil
  thus ?thesis by (simp add: dispatch_eq)
next
  case (Cons r q)
  hence "state (all_processes s ! r) = STATE_READY"
    using wf_sched_ready [OF assms(1), of r] by simp
  thus ?thesis using Cons by (simp add: dispatch_eq map_update_same assms(2))
qed

lemma completion_check_processes [simp]:
  "all_processes (completion_check s) = all_processes s"
  by (simp add: completion_check_def)

lemma complete_io_map:
  assumes "wf_sched s" "c \<in> set (waiting_queue s)"
    and "\<And>p. state p = STATE_WAITING \<Longrightarrow>
           f (p\<lparr>state := STATE_READY, time_in_ready_queue := 0\<rparr>) = f p"
  shows "map f (all_processes (complete_io clock c s)) = map f (all_processes s)"
proof -
  have "state (all_processes s ! c) = STATE_WAITING"
    using wf_sched_waiting [OF assms(1), of c] assms(2) by simp
  thus ?thesis by (simp add: complete_io_eq map_update_same assms(3))
qed

lemma io_scan_map:
  assumes "\<And>p. state p = STATE_WAITING \<Longrightarrow>
           f (p\<lparr>state := STATE_READY, time_in_ready_queue := 0\<rparr>) = f p"
  shows "sched_inv s \<Longrightarrow> distinct xs \<Longrightarrow> set xs \<subseteq> set (waiting_queue s) \<Longrightarrow>
    map f (all_processes (io_scan clock xs s)) = map f (all_processes s)"
proof (induction xs arbitrary: s)
  case Nil show ?case by simp
next
  case (Cons c xs)
  show ?case
  proof (cases "clock \<ge> io_completion_time (all_processes s ! c)")
    case False
    thus ?thesis using Cons by simp
  next
    case True
    have 1: "sched_inv (complete_io clock c s)"
      using Cons.prems by (simp add: sched_inv_complete_io)
    have "distinct (waiting_queue s)"
      using Cons.prems(1) wf_sched_distinct by (simp add: sched_inv_def)
    hence 2: "set xs \<subseteq> set (waiting_queue (complete_io clock c s))"
      using Cons.prems by (auto simp: complete_io_eq)
    have 3: "map f (all_processes (complete_io clock c s)) = map f (all_processes s)"
      using Cons.prems assms by (simp add: complete_io_map sched_inv_def)
    show ?thesis using True Cons.IH [OF 1 _ 2] Cons.prems(2) 3 by simp
  qed
qed

lemma io_manager_pass_map:
  assumes "\<And>p. state p = STATE_WAITING \<Longrightarrow>
           f (p\<lparr>state := STATE_READY, time_in_ready_queue := 0\<rparr>) = f p"
    and "sched_inv s"
  shows "map f (all_processes (io_manager_pass c s)) = map f (all_processes s)"
proof -
  have "distinct (waiting_queue s)"
    using assms(2) wf_sched_distinct [of s] by (simp add: sched_inv_def)
  thus ?thesis unfolding io_manager_pass_def using assms by (simp add: io_scan_map)
qed

lemma tick_body_eq: "tick_body s = (completion_check (after_dispatch s))\<lparr>in_tick := False\<rparr>"
  by (simp add: tick_body_def Let_def after_dispatch_def after_burst_def after_aging_def
      after_arrivals_def)

lemma tick_body_processes: "all_processes (tick_body s) = all_processes (after_dispatch s)"
  by (simp add: tick_body_eq)

lemma sched_inv_after_arrivals: "sched_inv s \<Longrightarrow> sched_inv (after_arrivals s)"
  unfolding after_arrivals_def by (rule sched_inv_check_arrivals) simp_all

lemma sched_inv_after_aging: "sched_inv s \<Longrightarrow> sched_inv (after_aging s)"
  unfolding after_aging_def by (intro sched_inv_aging_check sched_inv_after_arrivals)

lemma sched_inv_after_burst: "sched_inv s \<Longrightarrow> sched_inv (after_burst s)"
  unfolding after_burst_def by (intro sched_inv_finish_burst sched_inv_after_aging)

lemma sched_inv_after_dispatch: "sched_inv s \<Longrightarrow> sched_inv (after_dispatch s)"
  unfolding after_dispatch_def by (intro sched_inv_dispatch sched_inv_after_burst)

lemma after_arrivals_map:
  assumes "\<And>p. state p = STATE_NEW \<Longrightarrow> f (admitted p) = f p" "sched_inv s"
  shows "map f (all_processes (after_arrivals s)) = map f (all_processes s)"
  unfolding after_arrivals_def using assms by (simp add: check_arrivals_map)

lemma after_aging_map:
  assumes "\<And>p. f (p\<lparr>time_in_ready_queue := 0\<rparr>) = f p" "\<And>p e. f (age_process e p) = f p"
  shows "map f (all_processes (after_aging s)) = map f (all_processes (after_arrivals s))"
  unfolding after_aging_def using assms by (simp add: aging_check_map)

lemma after_burst_map:
  assumes "\<And>p b. state p = STATE_RUNNING \<Longrightarrow> f (terminated p b) = f p"
    and "\<And>p b c. state p = STATE_RUNNING \<Longrightarrow> f (blocked p b c) = f p"
    and "sched_inv s"
  shows "map f (all_processes (after_burst s)) = map f (all_processes (after_aging s))"
  unfolding after_burst_def using assms sched_inv_after_aging [of s]
  by (simp add: finish_burst_map sched_inv_def)

lemma after_dispatch_map:
  assumes "\<And>p. state p = STATE_READY \<Longrightarrow> f (dispatched p) = f p" "sched_inv s"
  shows "map f (all_processes (after_dispatch s)) = map f (all_processes (after_burst s))"
  unfolding after_dispatch_def using assms sched_inv_after_burst [of s]
  by (simp add: dispatch_map sched_inv_def)

lemma static_simps [simp]:
  "static (admitted p) = static p"
  "static (terminated p b) = static p"
  "static (blocked p b c) = static p"
  "static (dispatched p) = static p"
  "static (age_process e p) = static p"
  "static (p\<lparr>time_in_ready_queue := v\<rparr>) = static p"
  "static (p\<lparr>state := st\<rparr>) = static p"
  by (simp_all add: static_def admitted_def terminated_def blocked_def dispatched_def)

lemma tick_body_static:
  assumes "sched_inv s"
  shows "map static (all_processes (tick_body s)) = map static (all_processes s)"
  using after_dispatch_map [of static s] after_burst_map [of static s]
    after_aging_map [of static s] after_arrivals_map [of static s] assms
  by (simp add: tick_body_processes)

lemma reachable_static:
  assumes "reachable s0 s" "sched_inv s0"
  shows "map static (all_processes s) = map static (all_processes s0)"
  using assms
proof (induction rule: reachable.induct)
  case reach_init show ?case by simp
next
  case (reach_clock s) thus ?case by (simp add: clock_tick_def)
next
  case (reach_body s)
  thus ?case using tick_body_static [of s] reachable_sched_inv [of s0 s] by simp
next
  case (reach_io s c)
  thus ?case using io_manager_pass_map [of static s c] reachable_sched_inv [of s0 s] by simp
qed

lemma reachable_length:
  assumes "reachable s0 s" "sched_inv s0"
  shows "length (all_processes s) = length (all_processes s0)"
  using reachable_static [OF assms] by (metis length_map)

section \<open>Priority\<close>

lemma priority_simps [simp]:
  "priority (admitted p) = priority p"
  "priority (terminated p b) = priority p"
  "priority (blocked p b c) = priority p"
  "priority (dispatched p) = priority p"
  by (simp_all add: admitted_def terminated_def blocked_def dispatched_def)

lemma aged_priority:
  assumes "is_int k" "0 < k" "100 \<le> c_int t"
  shows "c_int (k - c_int t div 100) = k - c_int t div 100" "1 \<le> c_int t div 100"
proof -
  have "c_int t \<le> INT_MAX" by (rule c_int_range)
  hence "c_int t div 100 \<le> INT_MAX div 100" by (rule zdiv_mono1) simp
  moreover show 1: "1 \<le> c_int t div 100" using assms(3) by simp
  ultimately show "c_int (k - c_int t div 100) = k - c_int t div 100"
    using assms(1,2) by (intro c_int_id) (simp_all add: is_int_def INT_MAX_def INT_MIN_def)
qed

lemma age_process_priority_le:
  assumes "is_int (priority p)"
  shows "priority (age_process e p) \<le> priority p"
proof (cases "c_int (time_in_ready_queue p + e) \<ge> 100 \<and> 0 < priority p")
  case True
  thus ?thesis using aged_priority [OF assms, of "time_in_ready_queue p + e"]
    by (simp add: age_process_def Let_def)
next
  case False
  thus ?thesis by (auto simp: age_process_def Let_def)
qed

lemma is_int_0 [simp]: "is_int 0"
  by (simp add: is_int_def INT_MIN_def INT_MAX_def)

lemma age_process_priority_int:
  assumes "is_int (priority p)"
  shows "is_int (priority (age_process e p))"
  using assms by (simp add: age_process_def Let_def)

lemma age_process_priority_ge: "0 \<le> priority p \<Longrightarrow> 0 \<le> priority (age_process e p)"
  by (simp add: age_process_def Let_def)

lemma io_manager_pass_priority:
  "sched_inv s \<Longrightarrow> map priority (all_processes (io_manager_pass c s)) = map priority (all_processes s)"
  by (rule io_manager_pass_map) simp_all

lemma after_arrivals_priority:
  "sched_inv s \<Longrightarrow> map priority (all_processes (after_arrivals s)) = map priority (all_processes s)"
  by (rule after_arrivals_map) simp_all

lemma tick_body_priority:
  assumes "sched_inv s"
  shows "map priority (all_processes (tick_body s)) = map priority (all_processes (after_aging s))"
  using after_dispatch_map [of priority s] after_burst_map [of priority s] assms
  by (simp add: tick_body_processes)

lemma after_arrivals_length [simp]:
  "length (all_processes (after_arrivals s)) = length (all_processes s)"
  by (simp add: after_arrivals_def)

lemma aging_check_priority:
  assumes "distinct (ready_queue s)" "i < length (all_processes s)"
  shows "priority (all_processes (aging_check clock s) ! i) =
     (if clock > last_aging_check s \<and> i \<in> set (ready_queue s)
      then priority (age_process (c_int (clock - last_aging_check s)) (all_processes s ! i))
      else priority (all_processes s ! i))"
proof (cases "clock > last_aging_check s")
  case False
  thus ?thesis by (simp add: aging_check_eq)
next
  case True
  let ?ps1 = "update_aging (c_int (clock - last_aging_check s)) (all_processes s) (ready_queue s)"
  have "map priority (fst (resort_ready_queue ?ps1 (ready_queue s))) = map priority ?ps1"
    by (rule resort_ready_queue_map) simp
  hence "priority (fst (resort_ready_queue ?ps1 (ready_queue s)) ! i) = priority (?ps1 ! i)"
    by (rule map_eq_nth) (simp add: assms(2))
  thus ?thesis using True assms by (simp add: aging_check_eq update_aging_nth)
qed

lemma after_aging_priority:
  assumes "sched_inv s" "i < length (all_processes s)"
  shows "priority (all_processes (after_aging s) ! i) =
     (if current_clock s > last_aging_check (after_arrivals s)
         \<and> i \<in> set (ready_queue (after_arrivals s))
      then priority (age_process (c_int (current_clock s - last_aging_check (after_arrivals s)))
             (all_processes (after_arrivals s) ! i))
      else priority (all_processes s ! i))"
proof -
  have d: "distinct (ready_queue (after_arrivals s))"
    using sched_inv_after_arrivals [OF assms(1)] wf_sched_distinct by (simp add: sched_inv_def)
  have "priority (all_processes (after_arrivals s) ! i) = priority (all_processes s ! i)"
    using after_arrivals_priority [OF assms(1)] assms(2) by (rule map_eq_nth)
  thus ?thesis
    unfolding after_aging_def using aging_check_priority [OF d, of i "current_clock s"] assms(2)
    by simp
qed

lemma after_aging_length [simp]:
  "length (all_processes (after_aging s)) = length (all_processes s)"
  by (simp add: after_aging_def aging_check_eq)

lemma tick_body_priority_nth:
  assumes "sched_inv s" "i < length (all_processes s)"
  shows "priority (all_processes (tick_body s) ! i) = priority (all_processes (after_aging s) ! i)"
proof (rule map_eq_nth [OF tick_body_priority [OF assms(1)]])
  show "i < length (all_processes (after_aging s))" using assms(2) by simp
qed

lemma tick_body_priority_le:
  assumes "sched_inv s" "i < length (all_processes s)" "is_int (priority (all_processes s ! i))"
  shows "priority (all_processes (tick_body s) ! i) \<le> priority (all_processes s ! i)"
    and "is_int (priority (all_processes (tick_body s) ! i))"
proof -
  have e: "priority (all_processes (after_arrivals s) ! i) = priority (all_processes s ! i)"
    using after_arrivals_priority [OF assms(1)] assms(2) by (rule map_eq_nth)
  hence t: "is_int (priority (all_processes (after_arrivals s) ! i))" using assms(3) by simp
  show "priority (all_processes (tick_body s) ! i) \<le> priority (all_processes s ! i)"
    using e tick_body_priority_nth [OF assms(1,2)] after_aging_priority [OF assms(1,2)]
      age_process_priority_le [OF t,
        of "c_int (current_clock s - last_aging_check (after_arrivals s))"]
    by (simp split: if_splits)
  show "is_int (priority (all_processes (tick_body s) ! i))"
    using e tick_body_priority_nth [OF assms(1,2)] after_aging_priority [OF assms(1,2)]
      age_process_priority_int [OF t,
        of "c_int (current_clock s - last_aging_check (after_arrivals s))"] assms(3)
    by (simp split: if_splits)
qed

lemma tick_body_priority_ge:
  assumes "sched_inv s" "i < length (all_processes s)" "0 \<le> priority (all_processes s ! i)"
  shows "0 \<le> priority (all_processes (tick_body s) ! i)"
proof -
  have "priority (all_processes (after_arrivals s) ! i) = priority (all_processes s ! i)"
    using after_arrivals_priority [OF assms(1)] assms(2) by (rule map_eq_nth)
  thus ?thesis
    using tick_body_priority_nth [OF assms(1,2)] after_aging_priority [OF assms(1,2)] assms(3)
      age_process_priority_ge [of "all_processes (after_arrivals s) ! i"
        "c_int (current_clock s - last_aging_check (after_arrivals s))"]
    by (simp split: if_splits)
qed

lemma tick_body_length [simp]: "length (all_processes (tick_body s)) = length (all_processes s)"
  by (simp add: tick_body_def Let_def dispatch_eq finish_burst_eq aging_check_eq
      split: list.split option.split)

lemma reachable_priority_bounds:
  assumes "reachable s0 s" "sched_inv s0" "i < length (all_processes s0)"
    "is_int (priority (all_processes s0 ! i))"
  shows "priority (all_processes s ! i) \<le> priority (all_processes s0 ! i)
    \<and> (0 \<le> priority (all_processes s0 ! i) \<longrightarrow> 0 \<le> priority (all_processes s ! i))
    \<and> is_int (priority (all_processes s ! i))"
  using assms
proof (induction rule: reachable.induct)
  case reach_init thus ?case by simp
next
  case (reach_clock s) thus ?case by (simp add: clock_tick_def)
next
  case (reach_body s)
  have inv: "sched_inv s" using reach_body reachable_sched_inv by blast
  have i: "i < length (all_processes s)" using reach_body reachable_length by simp
  have t: "is_int (priority (all_processes s ! i))" using reach_body by simp
  show ?case
    using tick_body_priority_le [OF inv i t] tick_body_priority_ge [OF inv i] reach_body
    by force
next
  case (reach_io s c)
  have inv: "sched_inv s" using reach_io reachable_sched_inv by blast
  have i: "i < length (all_processes s)" using reach_io reachable_length by simp
  have "priority (all_processes (io_manager_pass c s) ! i) = priority (all_processes s ! i)"
    using io_manager_pass_priority [OF inv] i by (rule map_eq_nth)
  thus ?case using reach_io by simp
qed

section \<open>Fields that the operations do not touch\<close>

lemma admit_fields [simp]:
  "running_process (admit c i s) = running_process s"
  "running_until (admit c i s) = running_until s"
  "current_clock (admit c i s) = current_clock s"
  "in_tick (admit c i s) = in_tick s"
  "waiting_queue (admit c i s) = waiting_queue s"
  "last_aging_check (admit c i s) = last_aging_check s"
  "all_terminated (admit c i s) = all_terminated s"
  by (simp_all add: admit_eq)

lemma check_arrivals_fields [simp]:
  "running_process (check_arrivals c xs s) = running_process s"
  "running_until (check_arrivals c xs s) = running_until s"
  "current_clock (check_arrivals c xs s) = current_clock s"
  "in_tick (check_arrivals c xs s) = in_tick s"
  "waiting_queue (check_arrivals c xs s) = waiting_queue s"
  "last_aging_check (check_arrivals c xs s) = last_aging_check s"
  "all_terminated (check_arrivals c xs s) = all_terminated s"
  by (induction xs arbitrary: s) simp_all

lemma aging_check_fields [simp]:
  "running_process (aging_check c s) = running_process s"
  "running_until (aging_check c s) = running_until s"
  "current_clock (aging_check c s) = current_clock s"
  "in_tick (aging_check c s) = in_tick s"
  "waiting_queue (aging_check c s) = waiting_queue s"
  "printed (aging_check c s) = printed s"
  "all_terminated (aging_check c s) = all_terminated s"
  by (simp_all add: aging_check_eq)

lemma finish_burst_fields [simp]:
  "running_until (finish_burst c s) = running_until s"
  "current_clock (finish_burst c s) = current_clock s"
  "in_tick (finish_burst c s) = in_tick s"
  "ready_queue (finish_burst c s) = ready_queue s"
  "last_aging_check (finish_burst c s) = last_aging_check s"
  "all_terminated (finish_burst c s) = all_terminated s"
  by (simp_all add: finish_burst_eq split: option.split)

lemma dispatch_fields [simp]:
  "current_clock (dispatch c s) = current_clock s"
  "in_tick (dispatch c s) = in_tick s"
  "waiting_queue (dispatch c s) = waiting_queue s"
  "last_aging_check (dispatch c s) = last_aging_check s"
  "all_terminated (dispatch c s) = all_terminated s"
  by (simp_all add: dispatch_eq split: list.split)

lemma complete_io_fields [simp]:
  "running_process (complete_io c i s) = running_process s"
  "running_until (complete_io c i s) = running_until s"
  "current_clock (complete_io c i s) = current_clock s"
  "in_tick (complete_io c i s) = in_tick s"
  "last_aging_check (complete_io c i s) = last_aging_check s"
  "all_terminated (complete_io c i s) = all_terminated s"
  by (simp_all add: complete_io_eq)

lemma io_scan_fields [simp]:
  "running_process (io_scan c xs s) = running_process s"
  "running_until (io_scan c xs s) = running_until s"
  "current_clock (io_scan c xs s) = current_clock s"
  "in_tick (io_scan c xs s) = in_tick s"
  "last_aging_check (io_scan c xs s) = last_aging_check s"
  "all_terminated (io_scan c xs s) = all_terminated s"
  by (induction xs arbitrary: s) simp_all

lemma io_manager_pass_fields [simp]:
  "running_process (io_manager_pass c s) = running_process s"
  "running_until (io_manager_pass c s) = running_until s"
  "current_clock (io_manager_pass c s) = current_clock s"
  "in_tick (io_manager_pass c s) = in_tick s"
  "last_aging_check (io_manager_pass c s) = last_aging_check s"
  "all_terminated (io_manager_pass c s) = all_terminated s"
  by (simp_all add: io_manager_pass_def)

lemma after_aging_fields [simp]:
  "running_process (after_aging s) = running_process s"
  "running_until (after_aging s) = running_until s"
  "current_clock (after_aging s) = current_clock s"
  "in_tick (after_aging s) = in_tick s"
  "waiting_queue (after_aging s) = waiting_queue s"
  "all_terminated (after_aging s) = all_terminated s"
  by (simp_all add: after_aging_def after_arrivals_def)

lemma after_burst_fields [simp]:
  "running_until (after_burst s) = running_until s"
  "current_clock (after_burst s) = current_clock s"
  "in_tick (after_burst s) = in_tick s"
  "all_terminated (after_burst s) = all_terminated s"
  by (simp_all add: after_burst_def)

lemma after_dispatch_fields [simp]:
  "current_clock (after_dispatch s) = current_clock s"
  "in_tick (after_dispatch s) = in_tick s"
  "all_terminated (after_dispatch s) = all_terminated s"
  by (simp_all add: after_dispatch_def)

section \<open>The printed lines\<close>

lemma account_admit:
  "foldl account st (printed (admit c i s)) = foldl account st (printed s)"
  by (cases st) (simp add: admit_eq)

lemma account_check_arrivals:
  "foldl account st (printed (check_arrivals c xs s)) = foldl account st (printed s)"
  by (induction xs arbitrary: s) (simp_all add: account_admit)

lemma account_complete_io:
  "foldl account st (printed (complete_io c i s)) = foldl account st (printed s)"
  by (cases st) (simp add: complete_io_eq)

lemma account_io_scan:
  "foldl account st (printed (io_scan c xs s)) = foldl account st (printed s)"
  by (induction xs arbitrary: s) (simp_all add: account_complete_io)

lemma account_after_aging:
  "foldl account st (printed (after_aging s)) = foldl account st (printed s)"
  by (simp add: after_aging_def after_arrivals_def account_check_arrivals)

section \<open>The numeric invariant\<close>

lemma num_inv_split: "num_inv s \<longleftrightarrow> num_inv_at (\<not> in_tick s) s \<and> finished_ok s"
  by (auto simp: num_inv_def num_inv_at_def finished_ok_def)

lemma rem_view_simps [simp]:
  "state p = STATE_NEW \<Longrightarrow> rem_view (admitted p) = rem_view p"
  "state p = STATE_READY \<Longrightarrow> rem_view (dispatched p) = rem_view p"
  "state p = STATE_WAITING \<Longrightarrow> rem_view (p\<lparr>state := STATE_READY\<rparr>) = rem_view p"
  "rem_view (age_process e p) = rem_view p"
  "rem_view (p\<lparr>time_in_ready_queue := v\<rparr>) = rem_view p"
  by (simp_all add: rem_view_def admitted_def dispatched_def)

lemma rem_view_cong:
  assumes "map rem_view ps' = map rem_view ps"
  shows "list_all rem_ok ps' = list_all rem_ok ps"
    and "consumed ps' = consumed ps"
    and "all_done ps' = all_done ps"
    and "r < length ps \<Longrightarrow> dispatch_burst_time (ps' ! r) = dispatch_burst_time (ps ! r)"
    and "r < length ps \<Longrightarrow> remaining_time (ps' ! r) = remaining_time (ps ! r)"
    and "list_all (fits_record k) ps' = list_all (fits_record k) ps"
proof -
  have ro: "rem_ok = (\<lambda>(i, r, c, t, w). 0 < i \<and> 0 \<le> r \<and> r \<le> c \<and> (t = (r = 0))) \<circ> rem_view"
    by (auto simp: rem_ok_def rem_view_def fun_eq_iff)
  have co: "(\<lambda>p. cpu_execution_time p - remaining_time p) = (\<lambda>(i, r, c, t, w). c - r) \<circ> rem_view"
    by (auto simp: rem_view_def fun_eq_iff)
  have ad: "(\<lambda>p. state p = STATE_TERMINATED) = (\<lambda>(i, r, c, t, w). t) \<circ> rem_view"
    by (auto simp: rem_view_def fun_eq_iff)
  have fi: "fits_record k = (\<lambda>(i, r, c, t, w). k + i \<le> INT_MAX \<and> k + w \<le> INT_MAX
      \<and> INT_MIN \<le> w \<and> c \<le> INT_MAX) \<circ> rem_view"
    by (auto simp: fits_record_def rem_view_def fun_eq_iff)
  have "list_all rem_ok ps' =
      list_all (\<lambda>(i, r, c, t, w). 0 < i \<and> 0 \<le> r \<and> r \<le> c \<and> (t = (r = 0))) (map rem_view ps')"
    by (simp only: ro list.pred_map)
  also have "\<dots> = list_all rem_ok ps"
    by (simp only: assms ro list.pred_map)
  finally show "list_all rem_ok ps' = list_all rem_ok ps" .
  have "consumed ps' = sum_list (map (\<lambda>(i, r, c, t, w). c - r) (map rem_view ps'))"
    unfolding consumed_def co by simp
  also have "\<dots> = consumed ps"
    unfolding consumed_def co assms by simp
  finally show "consumed ps' = consumed ps" .
  have "all_done ps' = list_all (\<lambda>(i, r, c, t, w). t) (map rem_view ps')"
    unfolding all_done_def ad by (simp only: list.pred_map)
  also have "\<dots> = all_done ps"
    unfolding all_done_def ad assms by (simp only: list.pred_map)
  finally show "all_done ps' = all_done ps" .
  have "list_all (fits_record k) ps' =
      list_all (\<lambda>(i, r, c, t, w). k + i \<le> INT_MAX \<and> k + w \<le> INT_MAX
      \<and> INT_MIN \<le> w \<and> c \<le> INT_MAX) (map rem_view ps')"
    by (simp only: fi list.pred_map)
  also have "\<dots> = list_all (fits_record k) ps"
    by (simp only: assms fi list.pred_map)
  finally show "list_all (fits_record k) ps' = list_all (fits_record k) ps" .
  assume r: "r < length ps"
  have "rem_view (ps' ! r) = rem_view (ps ! r)" using assms r by (rule map_eq_nth)
  thus "dispatch_burst_time (ps' ! r) = dispatch_burst_time (ps ! r)"
    and "remaining_time (ps' ! r) = remaining_time (ps ! r)"
    by (simp_all add: rem_view_def dispatch_burst_time_def Let_def)
qed

lemma num_inv_at_frame:
  assumes "num_inv_at strict s" "wf_sched s"
    and "map rem_view (all_processes s') = map rem_view (all_processes s)"
    and "running_process s' = running_process s" "running_until s' = running_until s"
    and "current_clock s' = current_clock s"
    and "foldl account (None, 0) (printed s') = foldl account (None, 0) (printed s)"
  shows "num_inv_at strict s'"
proof -
  have 1: "list_all rem_ok (all_processes s')"
    using rem_view_cong(1) [OF assms(3)] assms(1) by (simp add: num_inv_at_def)
  have f: "fits s'"
    using rem_view_cong(6) [OF assms(3), of "current_clock s"] assms(1,6)
    by (simp add: num_inv_at_def fits_def)
  have "ledger s' = ledger s"
  proof (cases "running_process s")
    case None
    thus ?thesis using rem_view_cong(2) [OF assms(3)] assms(4) by (simp add: ledger_def)
  next
    case (Some r)
    hence "r < length (all_processes s)" using wf_sched_running [OF assms(2), of r] by simp
    thus ?thesis
      using rem_view_cong(2,4,5) [OF assms(3)] assms(4,5) Some by (simp add: ledger_def)
  qed
  thus ?thesis using 1 f assms(1,4,5,6,7) by (simp add: num_inv_at_def)
qed

lemma finished_ok_frame:
  assumes "finished_ok s"
    and "map rem_view (all_processes s') = map rem_view (all_processes s)"
    and "running_process s' = running_process s" "in_tick s' = in_tick s"
    and "all_terminated s' = all_terminated s"
  shows "finished_ok s'"
  using assms rem_view_cong(3) [OF assms(2)] by (simp add: finished_ok_def)

lemma num_inv_at_after_aging:
  assumes "num_inv_at strict s" "sched_inv s"
  shows "num_inv_at strict (after_aging s)"
proof (rule num_inv_at_frame [OF assms(1)])
  show "wf_sched s" using assms(2) by (simp add: sched_inv_def)
  have "map rem_view (all_processes (after_arrivals s)) = map rem_view (all_processes s)"
    using assms(2) by (intro after_arrivals_map) simp_all
  moreover have "map rem_view (all_processes (after_aging s))
      = map rem_view (all_processes (after_arrivals s))"
    by (intro after_aging_map) simp_all
  ultimately show "map rem_view (all_processes (after_aging s)) = map rem_view (all_processes s)"
    by simp
qed (simp_all add: account_after_aging)

lemma num_inv_at_io_manager_pass:
  assumes "num_inv_at strict s" "sched_inv s"
  shows "num_inv_at strict (io_manager_pass c s)"
proof (rule num_inv_at_frame [OF assms(1)])
  show "wf_sched s" using assms(2) by (simp add: sched_inv_def)
  show "map rem_view (all_processes (io_manager_pass c s)) = map rem_view (all_processes s)"
    using assms(2) by (intro io_manager_pass_map) simp_all
qed (simp_all add: io_manager_pass_def account_io_scan)

lemma finished_ok_io_manager_pass:
  assumes "finished_ok s" "sched_inv s"
  shows "finished_ok (io_manager_pass c s)"
proof (rule finished_ok_frame [OF assms(1)])
  show "map rem_view (all_processes (io_manager_pass c s)) = map rem_view (all_processes s)"
    using assms(2) by (intro io_manager_pass_map) simp_all
qed simp_all

lemma sum_list_map_update:
  fixes g :: "'a \<Rightarrow> int"
  shows "r < length ps \<Longrightarrow>
    sum_list (map g (ps[r := p'])) = sum_list (map g ps) - g (ps ! r) + g p'"
proof (induction ps arbitrary: r)
  case Nil thus ?case by simp
next
  case (Cons a ps)
  thus ?case by (cases r) simp_all
qed

lemma consumed_update:
  "r < length ps \<Longrightarrow> consumed (ps[r := p']) = consumed ps
     - (cpu_execution_time (ps ! r) - remaining_time (ps ! r))
     + (cpu_execution_time p' - remaining_time p')"
  unfolding consumed_def by (rule sum_list_map_update)

lemma list_all_update: "list_all P ps \<Longrightarrow> P p' \<Longrightarrow> list_all P (ps[r := p'])"
  by (cases "r < length ps") (auto simp: list_all_length nth_list_update list_update_beyond)

lemma fits_nth:
  assumes "fits s" "i < length (all_processes s)"
  shows "fits_record (current_clock s) (all_processes s ! i)" "0 \<le> current_clock s"
    "current_clock s \<le> INT_MAX"
  using assms by (simp_all add: fits_def list_all_length)

lemma burst_arith:
  assumes "rem_ok p" "fits_record c p" "0 \<le> c"
  shows "c_int (c + dispatch_burst_time p) = c + dispatch_burst_time p"
    and "resolved_burst_time c c p = dispatch_burst_time p"
    and "c_int (remaining_time p - dispatch_burst_time p)
          = remaining_time p - dispatch_burst_time p"
    and "c_int (c + io_time p) = c + io_time p"
proof -
  have r: "0 < interval_time p" "0 \<le> remaining_time p" "remaining_time p \<le> INT_MAX"
    "c + interval_time p \<le> INT_MAX" "c + io_time p \<le> INT_MAX" "INT_MIN \<le> io_time p"
    using assms(1,2) by (simp_all add: rem_ok_def fits_record_def)
  have d: "0 \<le> dispatch_burst_time p" "dispatch_burst_time p \<le> interval_time p"
    "dispatch_burst_time p \<le> remaining_time p"
    using r by (simp_all add: dispatch_burst_time_def Let_def)
  show "c_int (c + dispatch_burst_time p) = c + dispatch_burst_time p"
    using r d assms(3) by (intro c_int_id) (simp_all add: INT_MIN_def)
  have "c_int (c - interval_time p) = c - interval_time p"
    using r assms(3) by (intro c_int_id) (simp_all add: INT_MIN_def INT_MAX_def)
  moreover have "c_int (interval_time p) = interval_time p"
    using r assms(3) by (intro c_int_id) (simp_all add: INT_MIN_def INT_MAX_def)
  ultimately show "resolved_burst_time c c p = dispatch_burst_time p"
    by (simp add: resolved_burst_time_def dispatch_burst_time_def Let_def)
  show "c_int (remaining_time p - dispatch_burst_time p)
      = remaining_time p - dispatch_burst_time p"
    using r d by (intro c_int_id) (simp_all add: INT_MIN_def)
  show "c_int (c + io_time p) = c + io_time p"
    using r assms(3) by (intro c_int_id) simp_all
qed

lemma burst_records:
  assumes "rem_ok p" "fits_record c p" "0 \<le> c"
  shows "terminated p (dispatch_burst_time p) =
      p\<lparr>remaining_time := remaining_time p - dispatch_burst_time p, state := STATE_TERMINATED\<rparr>"
    and "blocked p (dispatch_burst_time p) c =
      p\<lparr>remaining_time := remaining_time p - dispatch_burst_time p, state := STATE_WAITING,
        io_completion_time := c + io_time p\<rparr>"
  using burst_arith(3,4) [OF assms] by (simp_all add: terminated_def blocked_def)

lemma running_rem_pos:
  assumes "num_inv_at strict s" "wf_sched s" "running_process s = Some r"
  shows "r < length (all_processes s)" "0 < remaining_time (all_processes s ! r)"
    "0 < interval_time (all_processes s ! r)" "0 < dispatch_burst_time (all_processes s ! r)"
    "dispatch_burst_time (all_processes s ! r) \<le> remaining_time (all_processes s ! r)"
    "remaining_time (all_processes s ! r) \<le> cpu_execution_time (all_processes s ! r)"
    "state (all_processes s ! r) = STATE_RUNNING"
proof -
  show r: "r < length (all_processes s)" and st: "state (all_processes s ! r) = STATE_RUNNING"
    using wf_sched_running [OF assms(2), of r] assms(3) by simp_all
  have "rem_ok (all_processes s ! r)"
    using assms(1) r by (simp add: num_inv_at_def list_all_length)
  thus "0 < remaining_time (all_processes s ! r)" "0 < interval_time (all_processes s ! r)"
    "0 < dispatch_burst_time (all_processes s ! r)"
    "dispatch_burst_time (all_processes s ! r) \<le> remaining_time (all_processes s ! r)"
    "remaining_time (all_processes s ! r) \<le> cpu_execution_time (all_processes s ! r)"
    using st by (auto simp: rem_ok_def dispatch_burst_time_def Let_def)
qed

lemma num_inv_at_finish_burst:
  assumes "num_inv_at False s" "wf_sched s" and that: "clock' = current_clock s"
  shows "num_inv_at True (finish_burst clock' s)"
proof (cases "running_process s")
  case None
  thus ?thesis using assms by (simp add: finish_burst_eq num_inv_at_def ledger_def)
next
  case (Some r)
  note run = running_rem_pos [OF assms(1,2) Some]
  let ?p = "all_processes s ! r"
  let ?b = "dispatch_burst_time ?p"
  have le: "current_clock s \<le> running_until s"
    using assms(1) Some by (simp add: num_inv_at_def)
  have led: "foldl account (None, 0) (printed s)
      = (Some (running_until s - ?b, remaining_time ?p, ?b), consumed (all_processes s))"
    using assms(1) Some by (simp add: num_inv_at_def ledger_def)
  have all: "list_all rem_ok (all_processes s)" using assms(1) by (simp add: num_inv_at_def)
  hence okp: "rem_ok ?p" using run(1) by (simp add: list_all_length)
  have f: "fits s" using assms(1) by (simp add: num_inv_at_def)
  note fr = fits_nth [OF f run(1)]
  note ar = burst_arith [OF okp fr(1,2)]
  note recs = burst_records [OF okp fr(1,2)]
  have fa: "list_all (fits_record (current_clock s)) (all_processes s)"
    "0 \<le> current_clock s" "current_clock s \<le> INT_MAX"
    using f by (simp_all add: fits_def)
  show ?thesis
  proof (cases "current_clock s \<ge> running_until s")
    case False
    thus ?thesis using assms Some that
      by (simp add: finish_burst_eq num_inv_at_def ledger_def)
  next
    case True
    hence eq: "running_until s = current_clock s" using le by simp
    have b: "resolved_burst_time (current_clock s) (running_until s) ?p = ?b"
      using eq ar(2) by simp
    show ?thesis
    proof (cases "remaining_time ?p - ?b \<le> 0")
      case True
      hence z: "remaining_time ?p - ?b = 0" using run(5) by simp
      have ok: "rem_ok (terminated ?p ?b)"
        using run z all by (simp add: rem_ok_def recs)
      have c: "consumed ((all_processes s)[r := terminated ?p ?b])
          = consumed (all_processes s) + ?b"
        using run(1) by (simp add: consumed_update recs)
      have ft: "fits_record (current_clock s) (terminated ?p ?b)"
        using fr(1) by (simp add: fits_record_def recs)
      have cond: "c_int (remaining_time ?p - ?b) \<le> 0" using True ar(3) by simp
      show ?thesis
        using Some that eq b cond ok c led all fa ft
        by (simp add: finish_burst_eq num_inv_at_def ledger_def list_all_update fits_def)
    next
      case False
      have ok: "rem_ok (blocked ?p ?b (current_clock s))"
        using run False all by (simp add: rem_ok_def recs)
      have c: "consumed ((all_processes s)[r := blocked ?p ?b (current_clock s)])
          = consumed (all_processes s) + ?b"
        using run(1) by (simp add: consumed_update recs)
      have ft: "fits_record (current_clock s) (blocked ?p ?b (current_clock s))"
        using fr(1) by (simp add: fits_record_def recs)
      have cond: "\<not> c_int (remaining_time ?p - ?b) \<le> 0" using False ar(3) by simp
      show ?thesis
        using Some that eq b cond ok c led all fa ft
        by (simp add: finish_burst_eq num_inv_at_def ledger_def list_all_update fits_def)
    qed
  qed
qed

lemma num_inv_at_dispatch:
  assumes "num_inv_at True s" "wf_sched s" and that: "clock' = current_clock s"
  shows "num_inv_at True (dispatch clock' s)"
proof (cases "ready_queue s")
  case Nil
  thus ?thesis using assms by (simp add: dispatch_eq num_inv_at_def ledger_def)
next
  case (Cons r q)
  show ?thesis
  proof (cases "running_process s")
    case (Some x)
    thus ?thesis using assms Cons by (simp add: dispatch_eq num_inv_at_def ledger_def)
  next
    case None
    let ?p = "all_processes s ! r"
    have r: "r < length (all_processes s)" and st: "state ?p = STATE_READY"
      using wf_sched_ready [OF assms(2), of r] Cons by simp_all
    have all: "list_all rem_ok (all_processes s)" using assms(1) by (simp add: num_inv_at_def)
    hence okp: "rem_ok ?p" using r by (simp add: list_all_length)
    hence pos: "0 < dispatch_burst_time ?p"
      using st by (auto simp: rem_ok_def dispatch_burst_time_def Let_def)
    have ok: "rem_ok (dispatched ?p)" using okp st by (simp add: rem_ok_def dispatched_def)
    have same: "dispatch_burst_time (dispatched ?p) = dispatch_burst_time ?p"
      "remaining_time (dispatched ?p) = remaining_time ?p"
      by (simp_all add: dispatch_burst_time_def dispatched_def Let_def)
    have c: "consumed ((all_processes s)[r := dispatched ?p]) = consumed (all_processes s)"
      using r by (simp add: consumed_update dispatched_def)
    have led: "foldl account (None, 0) (printed s) = (None, consumed (all_processes s))"
      using assms(1) None by (simp add: num_inv_at_def ledger_def)
    have f: "fits s" using assms(1) by (simp add: num_inv_at_def)
    note fr = fits_nth [OF f r]
    note ar = burst_arith [OF okp fr(1,2)]
    have fa: "list_all (fits_record (current_clock s)) (all_processes s)"
      "0 \<le> current_clock s" "current_clock s \<le> INT_MAX"
      using f by (simp_all add: fits_def)
    have ft: "fits_record (current_clock s) (dispatched ?p)"
      using fr(1) by (simp add: fits_record_def dispatched_def)
    show ?thesis
      using None Cons that r pos ok same c led all ar(1) fa ft
      by (simp add: dispatch_eq num_inv_at_def ledger_def list_all_update fits_def)
  qed
qed

lemma num_inv_at_completion:
  "num_inv_at strict s \<Longrightarrow> num_inv_at strict ((completion_check s)\<lparr>in_tick := b\<rparr>)"
  by (simp add: num_inv_at_def completion_check_def ledger_def fits_def)

lemma wf_sched_after_aging: "sched_inv s \<Longrightarrow> wf_sched (after_aging s)"
  using sched_inv_after_aging [of s] by (simp add: sched_inv_def)

lemma wf_sched_after_burst: "sched_inv s \<Longrightarrow> wf_sched (after_burst s)"
  using sched_inv_after_burst [of s] by (simp add: sched_inv_def)

lemma num_inv_at_after_burst:
  assumes "num_inv_at False s" "sched_inv s"
  shows "num_inv_at True (after_burst s)"
  unfolding after_burst_def
  by (rule num_inv_at_finish_burst [OF num_inv_at_after_aging [OF assms]
        wf_sched_after_aging [OF assms(2)]]) simp

lemma num_inv_at_after_dispatch:
  assumes "num_inv_at False s" "sched_inv s"
  shows "num_inv_at True (after_dispatch s)"
  unfolding after_dispatch_def
  by (rule num_inv_at_dispatch [OF num_inv_at_after_burst [OF assms]
        wf_sched_after_burst [OF assms(2)]]) simp

lemma num_inv_tick_body:
  assumes "num_inv s" "sched_inv s" "in_tick s"
  shows "num_inv (tick_body s)"
proof -
  have a: "num_inv_at False s" and f: "\<not> all_terminated s"
    using assms(1,3) by (auto simp: num_inv_split finished_ok_def)
  have 1: "num_inv_at True (tick_body s)"
    unfolding tick_body_eq
    by (rule num_inv_at_completion [OF num_inv_at_after_dispatch [OF a assms(2)]])
  have 2: "finished_ok (tick_body s)"
    using f by (simp add: tick_body_eq finished_ok_def completion_check_def)
  show ?thesis using 1 2 by (simp add: num_inv_split tick_body_eq)
qed

lemma clock_tick_clock:
  assumes "0 \<le> current_clock s" "current_clock s < INT_MAX"
  shows "current_clock (clock_tick s) = current_clock s + 1"
proof -
  have "c_int (current_clock s + 1) = current_clock s + 1"
    using assms by (intro c_int_id) (simp_all add: INT_MIN_def)
  thus ?thesis by (simp add: clock_tick_def)
qed

lemma fits_clock_tick:
  assumes "fits s" "current_clock s < bound" "room bound (all_processes s)"
  shows "fits (clock_tick s)"
proof -
  have c: "current_clock (clock_tick s) = current_clock s + 1"
    using assms by (intro clock_tick_clock) (simp_all add: fits_def room_def)
  have "list_all (fits_record (current_clock s + 1)) (all_processes s)"
    using assms by (auto simp: fits_def room_def list_all_iff fits_record_def)
  moreover have "all_processes (clock_tick s) = all_processes s" by (simp add: clock_tick_def)
  ultimately show ?thesis using assms c by (simp add: fits_def room_def)
qed

lemma fits_clock:
  assumes "fits s" "fits (clock_tick s)"
  shows "current_clock (clock_tick s) = current_clock s + 1"
proof (rule clock_tick_clock)
  show "0 \<le> current_clock s" using assms(1) by (simp add: fits_def)
  show "current_clock s < INT_MAX"
  proof (rule ccontr)
    assume "\<not> current_clock s < INT_MAX"
    hence "current_clock s = INT_MAX" using assms(1) by (simp add: fits_def)
    hence "current_clock (clock_tick s) = INT_MIN"
      by (simp add: clock_tick_def c_int_def INT_MAX_def INT_MIN_def)
    thus False using assms(2) by (simp add: fits_def INT_MIN_def)
  qed
qed

lemma num_inv_clock_tick:
  assumes "num_inv s" "\<not> in_tick s" "\<not> all_terminated s" "fits (clock_tick s)"
  shows "num_inv (clock_tick s)"
proof -
  have f: "fits s" using assms(1) by (simp add: num_inv_def)
  have c: "current_clock (clock_tick s) = current_clock s + 1"
    using f assms(4) by (rule fits_clock)
  have rest: "all_processes (clock_tick s) = all_processes s"
    "running_process (clock_tick s) = running_process s"
    "running_until (clock_tick s) = running_until s" "printed (clock_tick s) = printed s"
    "in_tick (clock_tick s)" "all_terminated (clock_tick s) = all_terminated s"
    by (simp_all add: clock_tick_def)
  show ?thesis using assms c rest by (auto simp: num_inv_def ledger_def)
qed

lemma num_inv_io_manager_pass:
  assumes "num_inv s" "sched_inv s"
  shows "num_inv (io_manager_pass c s)"
  using assms num_inv_at_io_manager_pass [of "\<not> in_tick s" s c]
    finished_ok_io_manager_pass [of s c]
  by (simp add: num_inv_split)

lemma consumed_fresh: "list_all fresh procs \<Longrightarrow> consumed procs = 0"
  by (induction procs) (simp_all add: consumed_def fresh_def)

lemma fits_initial:
  assumes "list_all fresh procs"
  shows "fits (initial_state procs)"
proof -
  have "list_all (fits_record 0) procs"
    using assms by (auto simp: list_all_iff fresh_def typed_def is_int_def fits_record_def)
  thus ?thesis by (simp add: fits_def initial_state_def INT_MAX_def)
qed

lemma num_inv_initial:
  assumes "list_all fresh procs" "well_formed procs"
  shows "num_inv (initial_state procs)"
proof -
  have "list_all rem_ok procs"
    using assms by (auto simp: list_all_iff well_formed_def fresh_def rem_ok_def)
  moreover have "num_inv (initial_state procs)
      = (fits (initial_state procs) \<and> list_all rem_ok procs \<and> consumed procs = 0)"
    by (auto simp: num_inv_def initial_state_def ledger_def)
  ultimately show ?thesis
    using consumed_fresh [OF assms(1)] fits_initial [OF assms(1)] by simp
qed

lemma reachable_upto_reachable: "reachable_upto bound s0 s \<Longrightarrow> reachable s0 s"
  by (induction rule: reachable_upto.induct) (auto intro: reachable.intros)

lemma reachable_upto_mono:
  "reachable_upto bound s0 s \<Longrightarrow> bound \<le> bound' \<Longrightarrow> reachable_upto bound' s0 s"
  by (induction rule: reachable_upto.induct) (auto intro: reachable_upto.intros)

lemma room_static:
  assumes "map static ps' = map static ps"
  shows "room bound ps' = room bound ps"
proof -
  have e: "(\<lambda>p. bound + interval_time p \<le> INT_MAX \<and> bound + io_time p \<le> INT_MAX)
      = (\<lambda>(a, b, c, d, e, f). bound + d \<le> INT_MAX \<and> bound + e \<le> INT_MAX) \<circ> static"
    by (auto simp: static_def fun_eq_iff)
  have "list_all (\<lambda>p. bound + interval_time p \<le> INT_MAX \<and> bound + io_time p \<le> INT_MAX) ps'
      = list_all (\<lambda>(a, b, c, d, e, f). bound + d \<le> INT_MAX \<and> bound + e \<le> INT_MAX)
          (map static ps')"
    by (simp only: e list.pred_map)
  also have "\<dots>
      = list_all (\<lambda>p. bound + interval_time p \<le> INT_MAX \<and> bound + io_time p \<le> INT_MAX) ps"
    by (simp only: assms e list.pred_map)
  finally show ?thesis by (simp add: room_def)
qed

lemma reachable_num_inv:
  assumes "reachable_upto bound s0 s" "sched_inv s0" "num_inv s0" "room bound (all_processes s0)"
  shows "num_inv s"
  using assms
proof (induction rule: reachable_upto.induct)
  case upto_init thus ?case by simp
next
  case (upto_clock s)
  have re: "reachable s0 s" using upto_clock.hyps(1) by (rule reachable_upto_reachable)
  have "room bound (all_processes s)"
    using room_static [OF reachable_static [OF re upto_clock.prems(1)]] upto_clock.prems(3)
    by simp
  hence "fits (clock_tick s)"
    using upto_clock by (intro fits_clock_tick [of s bound]) (simp_all add: num_inv_def)
  thus ?case using upto_clock by (simp add: num_inv_clock_tick)
next
  case (upto_body s)
  thus ?case
    using reachable_sched_inv [OF reachable_upto_reachable [OF upto_body.hyps(1)]]
    by (simp add: num_inv_tick_body)
next
  case (upto_io s c)
  thus ?case
    using reachable_sched_inv [OF reachable_upto_reachable [OF upto_io.hyps(1)]]
    by (simp add: num_inv_io_manager_pass)
qed


section \<open>The lockstep execution is one of the executions\<close>

lemma completion_check_fields [simp]:
  "current_clock (completion_check s) = current_clock s"
  "running_process (completion_check s) = running_process s"
  "running_until (completion_check s) = running_until s"
  "in_tick (completion_check s) = in_tick s"
  "ready_queue (completion_check s) = ready_queue s"
  "waiting_queue (completion_check s) = waiting_queue s"
  "printed (completion_check s) = printed s"
  "last_aging_check (completion_check s) = last_aging_check s"
  by (simp_all add: completion_check_def)

lemma reachable_upto_clock:
  assumes "reachable_upto bound s0 s" "0 \<le> current_clock s0" "current_clock s0 \<le> bound"
    "bound \<le> INT_MAX"
  shows "0 \<le> current_clock s \<and> current_clock s \<le> bound"
  using assms
proof (induction rule: reachable_upto.induct)
  case upto_init thus ?case by simp
next
  case (upto_clock s)
  hence "current_clock (clock_tick s) = current_clock s + 1"
    by (intro clock_tick_clock) simp_all
  thus ?case using upto_clock by simp
next
  case (upto_body s) thus ?case by (simp add: tick_body_eq)
next
  case (upto_io s c) thus ?case by simp
qed

lemma lockstep_round_upto:
  assumes "reachable_upto bound s0 s" "\<not> in_tick s" "0 \<le> current_clock s"
    "current_clock s < bound" "bound \<le> INT_MAX"
  shows "reachable_upto bound s0 (lockstep_round s) \<and> \<not> in_tick (lockstep_round s)
    \<and> 0 \<le> current_clock (lockstep_round s)
    \<and> current_clock (lockstep_round s) \<le> current_clock s + 1"
proof (cases "all_terminated s")
  case True
  thus ?thesis using assms by (simp add: lockstep_round_def)
next
  case False
  let ?s1 = "clock_tick s"
  let ?s2 = "tick_body ?s1"
  have c1: "current_clock ?s1 = current_clock s + 1"
    using assms by (intro clock_tick_clock) simp_all
  have 1: "reachable_upto bound s0 ?s1" using assms(1,2) False assms(4) by (rule upto_clock)
  have 2: "reachable_upto bound s0 ?s2" using 1 by (rule upto_body) (simp add: clock_tick_def)
  have c2: "current_clock ?s2 = current_clock s + 1" using c1 by (simp add: tick_body_eq)
  have "reachable_upto bound s0 (io_manager_pass (current_clock ?s2) ?s2)"
    using 2 by (rule upto_io) (simp_all add: c2 assms(3))
  thus ?thesis using False c2 assms(3) by (simp add: lockstep_round_def Let_def tick_body_eq)
qed

lemma lockstep_upto:
  assumes "reachable_upto bound s0 s" "\<not> in_tick s" "0 \<le> current_clock s"
    "current_clock s + int n \<le> bound" "bound \<le> INT_MAX"
  shows "reachable_upto bound s0 (lockstep n s) \<and> \<not> in_tick (lockstep n s)
    \<and> 0 \<le> current_clock (lockstep n s)
    \<and> current_clock (lockstep n s) \<le> current_clock s + int n"
  using assms
proof (induction n arbitrary: s)
  case 0 thus ?case by simp
next
  case (Suc n)
  have lt: "current_clock s < bound" using Suc.prems by simp
  note r = lockstep_round_upto [OF Suc.prems(1,2,3) lt Suc.prems(5)]
  have b: "current_clock (lockstep_round s) + int n \<le> bound" using r Suc.prems(4) by simp
  have "reachable_upto bound s0 (lockstep n (lockstep_round s))
    \<and> \<not> in_tick (lockstep n (lockstep_round s))
    \<and> 0 \<le> current_clock (lockstep n (lockstep_round s))
    \<and> current_clock (lockstep n (lockstep_round s)) \<le> current_clock (lockstep_round s) + int n"
    using r b Suc.prems(5) by (intro Suc.IH) simp_all
  thus ?case using r by simp
qed

lemma reachable_upto_lockstep_initial:
  assumes "int n \<le> bound" "bound \<le> INT_MAX"
  shows "reachable_upto bound (initial_state procs) (lockstep n (initial_state procs))"
  using lockstep_upto [of bound "initial_state procs" "initial_state procs" n] assms
  by (simp add: upto_init initial_state_def)

lemma reachable_lockstep_initial:
  assumes "int n \<le> INT_MAX"
  shows "reachable (initial_state procs) (lockstep n (initial_state procs))"
  using reachable_upto_lockstep_initial [OF assms, of procs]
  by (simp add: reachable_upto_reachable)

section \<open>Remaining time\<close>



lemma num_inv_weak: "num_inv s \<Longrightarrow> num_inv_at False s"
  by (cases "in_tick s") (auto simp: num_inv_split num_inv_at_def)

lemma finish_burst_length [simp]:
  "length (all_processes (finish_burst c s)) = length (all_processes s)"
  by (simp add: finish_burst_eq split: option.split)


lemma after_aging_rem_view:
  assumes "sched_inv s"
  shows "map rem_view (all_processes (after_aging s)) = map rem_view (all_processes s)"
proof -
  have "map rem_view (all_processes (after_arrivals s)) = map rem_view (all_processes s)"
    using assms by (intro after_arrivals_map) simp_all
  moreover have "map rem_view (all_processes (after_aging s))
      = map rem_view (all_processes (after_arrivals s))"
    by (intro after_aging_map) simp_all
  ultimately show ?thesis by simp
qed





section \<open>The operations, record by record\<close>








lemma complete_io_length [simp]:
  "length (all_processes (complete_io c x s)) = length (all_processes s)"
  by (simp add: complete_io_eq)



section \<open>The bound decreases\<close>








lemma cost_parts_frame [simp]:
  "io_wait (p\<lparr>time_in_ready_queue := v\<rparr>) = io_wait p"
  "io_wait (age_process e p) = io_wait p"
  "dispatch_burst_time (p\<lparr>time_in_ready_queue := v\<rparr>) = dispatch_burst_time p"
  "dispatch_burst_time (age_process e p) = dispatch_burst_time p"
  by (simp_all add: io_wait_def dispatch_burst_time_def Let_def)

lemma cost_frame [simp]:
  "cost c u (p\<lparr>time_in_ready_queue := v\<rparr>) = cost c u p"
  "cost c u (age_process e p) = cost c u p"
  by (cases "state p"; simp add: cost_def)+






lemma after_arrivals_fields [simp]:
  "running_process (after_arrivals s) = running_process s"
  "running_until (after_arrivals s) = running_until s"
  "current_clock (after_arrivals s) = current_clock s"
  "in_tick (after_arrivals s) = in_tick s"
  "waiting_queue (after_arrivals s) = waiting_queue s"
  "all_terminated (after_arrivals s) = all_terminated s"
  by (simp_all add: after_arrivals_def)









section \<open>The rounds of the lockstep execution\<close>

lemma io_scan_length [simp]:
  "length (all_processes (io_scan c xs s)) = length (all_processes s)"
  by (induction xs arbitrary: s) simp_all

lemma io_manager_pass_length [simp]:
  "length (all_processes (io_manager_pass c s)) = length (all_processes s)"
  by (simp add: io_manager_pass_def)

lemma clock_tick_fields [simp]:
  "all_processes (clock_tick s) = all_processes s"
  "running_process (clock_tick s) = running_process s"
  "running_until (clock_tick s) = running_until s"
  "ready_queue (clock_tick s) = ready_queue s"
  "waiting_queue (clock_tick s) = waiting_queue s"
  "in_tick (clock_tick s) = True"
  "all_terminated (clock_tick s) = all_terminated s"
  by (simp_all add: clock_tick_def)

lemma tick_body_fields [simp]:
  "current_clock (tick_body s) = current_clock s"
  "in_tick (tick_body s) = False"
  by (simp_all add: tick_body_eq)























section \<open>Counting dispatches and I/O blocks\<close>

lemma rem_view_counts:
  assumes "map rem_view ps' = map rem_view ps"
  shows "sum_list (map bursts_needed ps') = sum_list (map bursts_needed ps)"
    and "terminated_count ps' = terminated_count ps"
proof -
  have b: "\<And>xs. map bursts_needed xs
      = map (\<lambda>(i, r, c, t, w). (r + i - 1) div i) (map rem_view xs)"
    by (simp add: bursts_needed_def rem_view_def)
  have t: "\<And>xs. map (\<lambda>p. if state p = STATE_TERMINATED then 1 else (0::int)) xs
      = map (\<lambda>(i, r, c, t, w). if t then 1 else 0) (map rem_view xs)"
    by (simp add: rem_view_def)
  show "sum_list (map bursts_needed ps') = sum_list (map bursts_needed ps)"
    unfolding b assms ..
  show "terminated_count ps' = terminated_count ps"
    unfolding terminated_count_def t assms ..
qed

lemma filter_printed_admit:
  assumes "\<And>a b. \<not> P (Arrived a b)" "\<And>a b. \<not> P (MovedToReady a b)"
  shows "filter P (printed (admit c i s)) = filter P (printed s)"
  by (simp add: admit_eq assms)

lemma filter_printed_check_arrivals:
  assumes "\<And>a b. \<not> P (Arrived a b)" "\<And>a b. \<not> P (MovedToReady a b)"
  shows "filter P (printed (check_arrivals c xs s)) = filter P (printed s)"
  by (induction xs arbitrary: s) (simp_all add: filter_printed_admit assms)

lemma filter_printed_after_aging:
  assumes "\<And>a b. \<not> P (Arrived a b)" "\<And>a b. \<not> P (MovedToReady a b)"
  shows "filter P (printed (after_aging s)) = filter P (printed s)"
  by (simp add: after_aging_def after_arrivals_def filter_printed_check_arrivals assms)

lemma filter_printed_complete_io:
  assumes "\<And>a b. \<not> P (IOFinished a b)" "\<And>a b. \<not> P (MovedToReady a b)"
  shows "filter P (printed (complete_io c i s)) = filter P (printed s)"
  by (simp add: complete_io_eq assms)

lemma filter_printed_io_manager_pass:
  assumes "\<And>a b. \<not> P (IOFinished a b)" "\<And>a b. \<not> P (MovedToReady a b)"
  shows "filter P (printed (io_manager_pass c s)) = filter P (printed s)"
proof -
  have "\<And>xs s. filter P (printed (io_scan c xs s)) = filter P (printed s)"
  proof -
    fix xs s show "filter P (printed (io_scan c xs s)) = filter P (printed s)"
      by (induction xs arbitrary: s) (simp_all add: filter_printed_complete_io assms)
  qed
  thus ?thesis by (simp add: io_manager_pass_def)
qed

lemma tally_frame:
  assumes "tally needed s"
    and "map rem_view (all_processes s') = map rem_view (all_processes s)"
    and "running_process s' = running_process s"
    and "filter is_dispatch (printed s') = filter is_dispatch (printed s)"
    and "filter is_io_block (printed s') = filter is_io_block (printed s)"
    and "filter is_termination (printed s') = filter is_termination (printed s)"
  shows "tally needed s'"
  using assms(1) rem_view_counts [OF assms(2)] assms(3,4,5,6) by (simp add: tally_def)

lemma tally_after_aging:
  assumes "tally needed s" "sched_inv s"
  shows "tally needed (after_aging s)"
  using assms(1) after_aging_rem_view [OF assms(2)]
  by (rule tally_frame) (simp_all add: filter_printed_after_aging)

lemma tally_io_manager_pass:
  assumes "tally needed s" "sched_inv s"
  shows "tally needed (io_manager_pass c s)"
proof (rule tally_frame [OF assms(1)])
  show "map rem_view (all_processes (io_manager_pass c s)) = map rem_view (all_processes s)"
    using assms(2) by (intro io_manager_pass_map) simp_all
qed (simp_all add: filter_printed_io_manager_pass)

lemma bursts_needed_step:
  assumes "0 < interval_time p"
  shows "bursts_needed p = (remaining_time p - 1) div interval_time p + 1"
proof -
  have e: "remaining_time p + interval_time p - 1 = (remaining_time p - 1) + interval_time p"
    by simp
  have "interval_time p \<noteq> 0" using assms by simp
  hence "((remaining_time p - 1) + interval_time p) div interval_time p
      = (remaining_time p - 1) div interval_time p + 1"
    by (rule div_add_self2)
  thus ?thesis unfolding bursts_needed_def e .
qed

lemma bursts_needed_last:
  assumes "0 < remaining_time p" "remaining_time p \<le> interval_time p"
  shows "bursts_needed p = 1"
proof -
  have "(remaining_time p - 1) div interval_time p = 0"
    using assms by (intro div_pos_pos_trivial) simp_all
  thus ?thesis using bursts_needed_step [of p] assms by simp
qed

lemma bursts_needed_zero:
  assumes "0 < interval_time p" "remaining_time p = 0"
  shows "bursts_needed p = 0"
proof -
  have "(interval_time p - 1) div interval_time p = 0"
    using assms by (intro div_pos_pos_trivial) simp_all
  thus ?thesis using assms by (simp add: bursts_needed_def)
qed

lemma terminated_count_update:
  "r < length ps \<Longrightarrow> terminated_count (ps[r := p']) = terminated_count ps
     - (if state (ps ! r) = STATE_TERMINATED then 1 else 0)
     + (if state p' = STATE_TERMINATED then 1 else 0)"
  unfolding terminated_count_def by (rule sum_list_map_update)

lemma tally_finish_burst:
  assumes "tally needed s" "num_inv_at False s" "wf_sched s"
  shows "tally needed (finish_burst (current_clock s) s)"
proof (cases "running_process s")
  case None
  thus ?thesis using assms(1) by (simp add: finish_burst_eq)
next
  case (Some r)
  note run = running_rem_pos [OF assms(2,3) Some]
  let ?p = "all_processes s ! r"
  let ?b = "dispatch_burst_time ?p"
  have le: "current_clock s \<le> running_until s"
    using assms(2) Some by (simp add: num_inv_at_def)
  show ?thesis
  proof (cases "current_clock s \<ge> running_until s")
    case False
    thus ?thesis using assms(1) Some by (simp add: finish_burst_eq)
  next
    case True
    have f: "fits s" and all: "list_all rem_ok (all_processes s)"
      using assms(2) by (simp_all add: num_inv_at_def)
    have okp: "rem_ok ?p" using all run(1) by (simp add: list_all_length)
    note fr = fits_nth [OF f run(1)]
    note ar = burst_arith [OF okp fr(1,2)]
    note recs = burst_records [OF okp fr(1,2)]
    have "running_until s = current_clock s" using True le by simp
    hence b: "resolved_burst_time (current_clock s) (running_until s) ?p = ?b"
      using ar(2) by simp
    show ?thesis
    proof (cases "remaining_time ?p - ?b \<le> 0")
      case t: True
      hence "remaining_time ?p \<le> interval_time ?p"
        by (simp add: dispatch_burst_time_def Let_def split: if_splits)
      hence one: "bursts_needed ?p = 1" using run(2) by (intro bursts_needed_last) simp_all
      have "remaining_time (terminated ?p ?b) = 0" using t run(5) by (simp add: recs)
      hence zero: "bursts_needed (terminated ?p ?b) = 0"
        using run(3) by (intro bursts_needed_zero) (simp_all add: recs)
      have bs: "sum_list (map bursts_needed ((all_processes s)[r := terminated ?p ?b]))
          = sum_list (map bursts_needed (all_processes s)) - 1"
        using run(1) one zero by (simp add: sum_list_map_update)
      have tc: "terminated_count ((all_processes s)[r := terminated ?p ?b])
          = terminated_count (all_processes s) + 1"
        using run(1,7) by (simp add: terminated_count_update recs)
      have cond: "c_int (remaining_time ?p - ?b) \<le> 0" using t ar(3) by simp
      show ?thesis
        using assms(1) Some True b cond bs tc
        by (simp add: finish_burst_eq tally_def)
    next
      case f: False
      hence lt: "interval_time ?p < remaining_time ?p"
        by (simp add: dispatch_burst_time_def Let_def split: if_splits)
      hence bi: "?b = interval_time ?p" by (simp add: dispatch_burst_time_def Let_def)
      let ?q = "blocked ?p ?b (current_clock s)"
      have iq: "interval_time ?q = interval_time ?p"
        and rq': "remaining_time ?q = remaining_time ?p - ?b"
        by (simp_all add: recs)
      have rq: "remaining_time ?q = remaining_time ?p - interval_time ?p"
        using rq' bi by simp
      define iv where "iv = interval_time ?p"
      define rp where "rp = remaining_time ?p"
      define rb where "rb = remaining_time ?q"
      have iv: "0 < iv" using run(3) by (simp add: iv_def)
      have rel: "rp - 1 = (rb - 1) + iv" using rq by (simp add: rp_def rb_def iv_def)
      have "((rb - 1) + iv) div iv = (rb - 1) div iv + 1"
        using iv by (intro div_add_self2) simp
      hence d: "(rp - 1) div iv = (rb - 1) div iv + 1" unfolding rel .
      have "bursts_needed ?p = (rp - 1) div iv + 1"
        unfolding rp_def iv_def using run(3) by (rule bursts_needed_step)
      moreover have "bursts_needed ?q = (rb - 1) div iv + 1"
        unfolding rb_def iv_def iq [symmetric] using run(3) iq
        by (intro bursts_needed_step) simp
      ultimately have "bursts_needed ?p = bursts_needed ?q + 1" using d by simp
      hence bs: "sum_list (map bursts_needed ((all_processes s)[r := ?q]))
          = sum_list (map bursts_needed (all_processes s)) - 1"
        using run(1) by (simp add: sum_list_map_update)
      have tc: "terminated_count ((all_processes s)[r := ?q]) = terminated_count (all_processes s)"
        using run(1,7) by (simp add: terminated_count_update recs)
      have cond: "\<not> c_int (remaining_time ?p - ?b) \<le> 0" using f ar(3) by simp
      show ?thesis
        using assms(1) Some True b cond bs tc
        by (simp add: finish_burst_eq tally_def)
    qed
  qed
qed

lemma tally_dispatch:
  assumes "tally needed s" "wf_sched s"
  shows "tally needed (dispatch c s)"
proof (cases "ready_queue s")
  case Nil
  thus ?thesis using assms(1) by (simp add: dispatch_eq)
next
  case (Cons r q)
  show ?thesis
  proof (cases "running_process s")
    case (Some x)
    thus ?thesis using assms(1) Cons by (simp add: dispatch_eq)
  next
    case None
    let ?p = "all_processes s ! r"
    have r: "r < length (all_processes s)" and st: "state ?p = STATE_READY"
      using wf_sched_ready [OF assms(2), of r] Cons by simp_all
    have "bursts_needed (dispatched ?p) = bursts_needed ?p"
      by (simp add: bursts_needed_def dispatched_def)
    hence bs: "sum_list (map bursts_needed ((all_processes s)[r := dispatched ?p]))
        = sum_list (map bursts_needed (all_processes s))"
      using r by (simp add: sum_list_map_update)
    have tc: "terminated_count ((all_processes s)[r := dispatched ?p])
        = terminated_count (all_processes s)"
      using r st by (simp add: terminated_count_update dispatched_def)
    show ?thesis
      using assms(1) None Cons bs tc by (simp add: dispatch_eq tally_def)
  qed
qed

lemma tally_tick_body:
  assumes "tally needed s" "num_inv s" "sched_inv s"
  shows "tally needed (tick_body s)"
proof -
  have n: "num_inv_at False (after_aging s)"
    using num_inv_at_after_aging [OF num_inv_weak [OF assms(2)] assms(3)] .
  have "tally needed (finish_burst (current_clock (after_aging s)) (after_aging s))"
    using tally_after_aging [OF assms(1,3)] n wf_sched_after_aging [OF assms(3)]
    by (rule tally_finish_burst)
  hence "tally needed (after_burst s)" by (simp add: after_burst_def)
  hence "tally needed (after_dispatch s)"
    unfolding after_dispatch_def using wf_sched_after_burst [OF assms(3)]
    by (rule tally_dispatch)
  thus ?thesis by (simp add: tick_body_eq tally_def)
qed

lemma tally_initial:
  assumes "list_all fresh procs"
  shows "tally (sum_list (map bursts_needed procs)) (initial_state procs)"
proof -
  have "terminated_count procs = 0"
    using assms by (induction procs) (simp_all add: terminated_count_def fresh_def)
  thus ?thesis by (simp add: tally_def initial_state_def)
qed

lemma reachable_tally:
  assumes "reachable_upto bound s0 s" "sched_inv s0" "num_inv s0"
    "room bound (all_processes s0)" "tally needed s0"
  shows "tally needed s"
  using assms
proof (induction rule: reachable_upto.induct)
  case upto_init thus ?case by simp
next
  case (upto_clock s)
  thus ?case by (simp add: tally_def clock_tick_def)
next
  case (upto_body s)
  thus ?case
    using reachable_sched_inv [OF reachable_upto_reachable [OF upto_body.hyps(1)]]
      reachable_num_inv [OF upto_body.hyps(1)]
    by (simp add: tally_tick_body)
next
  case (upto_io s c)
  thus ?case
    using reachable_sched_inv [OF reachable_upto_reachable [OF upto_io.hyps(1)]]
    by (simp add: tally_io_manager_pass)
qed

lemma finished_counts:
  assumes "list_all rem_ok ps" "all_done ps"
  shows "sum_list (map bursts_needed ps) = 0" and "terminated_count ps = int (length ps)"
proof -
  have z: "\<And>p. p \<in> set ps \<Longrightarrow> bursts_needed p = 0"
    using assms by (intro bursts_needed_zero) (auto simp: list_all_iff rem_ok_def all_done_def)
  have "sum_list (map bursts_needed ps) = sum_list (map (\<lambda>p. 0) ps)"
    using z by (intro arg_cong [where f = sum_list] map_cong) simp_all
  thus "sum_list (map bursts_needed ps) = 0" by simp
  show "terminated_count ps = int (length ps)"
    using assms(2) by (induction ps) (simp_all add: terminated_count_def all_done_def)
qed

lemma run_totals:
  assumes "main_start args files tc = Inr s0" "well_formed (all_processes s0)"
    "reachable_upto bound s0 s" "all_terminated s" "room bound (all_processes s0)"
  shows "int (length (filter is_dispatch (printed s)))
      = sum_list (map bursts_needed (all_processes s0))"
    and "int (length (filter is_io_block (printed s)))
      = sum_list (map bursts_needed (all_processes s0)) - int (length (all_processes s0))"
proof -
  obtain procs where s0: "s0 = initial_state procs" and fr: "list_all fresh procs"
    using main_start_initial [OF assms(1)] by blast
  have wfp: "well_formed procs" using assms(2) s0 by (simp add: initial_state_def)
  have i0: "sched_inv s0" and n0: "num_inv s0"
    using s0 fr wfp by (simp_all add: sched_inv_initial num_inv_initial)
  have "tally (sum_list (map bursts_needed (all_processes s0))) s0"
    using tally_initial [OF fr] s0 by (simp add: initial_state_def)
  hence t: "tally (sum_list (map bursts_needed (all_processes s0))) s"
    by (rule reachable_tally [OF assms(3) i0 n0 assms(5)])
  have n: "num_inv s" using assms(3) i0 n0 assms(5) by (rule reachable_num_inv)
  hence d: "all_done (all_processes s)" "running_process s = None"
    and ok: "list_all rem_ok (all_processes s)"
    using assms(4) by (simp_all add: num_inv_def)
  have len: "length (all_processes s) = length (all_processes s0)"
    using reachable_upto_reachable [OF assms(3)] i0 by (rule reachable_length)
  show "int (length (filter is_dispatch (printed s)))
      = sum_list (map bursts_needed (all_processes s0))"
    using t d finished_counts [OF ok d(1)] by (simp add: tally_def)
  show "int (length (filter is_io_block (printed s)))
      = sum_list (map bursts_needed (all_processes s0)) - int (length (all_processes s0))"
    using t d finished_counts [OF ok d(1)] len by (simp add: tally_def)
qed

lemma scenario_main:
  "main_start [''input.txt''] (\<lambda>name. Some scenario_input) True
     = Inr (initial_state scenario_procs)"
proof -
  have "parse_input_file (Some scenario_input) = Inr scenario_procs" by code_simp
  thus ?thesis by (simp add: main_start_def)
qed

lemma scenario_well_formed: "well_formed (all_processes (initial_state scenario_procs))"
  by code_simp

lemma scenario_bursts:
  "sum_list (map bursts_needed (all_processes (initial_state scenario_procs))) = 3"
  "length (all_processes (initial_state scenario_procs)) = 1"
  by code_simp+

lemma sscanf_ints_length: "length (sscanf_ints n s) \<le> n"
  by (induction n arbitrary: s) (auto split: option.splits)

lemma line_record_None:
  "(line_record l = None) = (length (sscanf_ints 6 (c_str l)) \<noteq> 6)"
proof -
  have "length (sscanf_ints 6 (c_str l)) \<le> 6" by (rule sscanf_ints_length)
  thus ?thesis by (auto simp: line_record_def split: list.splits)
qed

lemma age_process_priority_nonpos:
  "priority p \<le> 0 \<Longrightarrow> priority (age_process e p) = priority p"
  by (simp add: age_process_def Let_def)

lemma tick_body_priority_nonpos:
  assumes "sched_inv s" "i < length (all_processes s)" "priority (all_processes s ! i) \<le> 0"
  shows "priority (all_processes (tick_body s) ! i) = priority (all_processes s ! i)"
proof -
  have "priority (all_processes (after_arrivals s) ! i) = priority (all_processes s ! i)"
    using after_arrivals_priority [OF assms(1)] assms(2) by (rule map_eq_nth)
  thus ?thesis
    using tick_body_priority_nth [OF assms(1,2)] after_aging_priority [OF assms(1,2)] assms(3)
      age_process_priority_nonpos [of "all_processes (after_arrivals s) ! i"
        "c_int (current_clock s - last_aging_check (after_arrivals s))"]
    by (simp split: if_splits)
qed

lemma reachable_priority_nonpos:
  assumes "reachable s0 s" "sched_inv s0" "i < length (all_processes s0)"
    "priority (all_processes s0 ! i) \<le> 0"
  shows "priority (all_processes s ! i) = priority (all_processes s0 ! i)"
  using assms
proof (induction rule: reachable.induct)
  case reach_init show ?case by simp
next
  case (reach_clock s) thus ?case by (simp add: clock_tick_def)
next
  case (reach_body s)
  have inv: "sched_inv s" using reach_body reachable_sched_inv by blast
  have i: "i < length (all_processes s)" using reach_body reachable_length by simp
  show ?case using tick_body_priority_nonpos [OF inv i] reach_body by simp
next
  case (reach_io s c)
  have inv: "sched_inv s" using reach_io reachable_sched_inv by blast
  have i: "i < length (all_processes s)" using reach_io reachable_length by simp
  have "priority (all_processes (io_manager_pass c s) ! i) = priority (all_processes s ! i)"
    using io_manager_pass_priority [OF inv] i by (rule map_eq_nth)
  thus ?case using reach_io by simp
qed

section \<open>Particular runs\<close>













lemma negative_main:
  "main_start [''input.txt''] (\<lambda>name. Some negative_input) True
     = Inr (initial_state negative_procs)"
proof -
  have "parse_input_file (Some negative_input) = Inr negative_procs" by code_simp
  thus ?thesis by (simp add: main_start_def)
qed

lemma aging_main:
  "main_start [''input.txt''] (\<lambda>name. Some aging_input) True = Inr (initial_state aging_procs)"
proof -
  have "parse_input_file (Some aging_input) = Inr aging_procs" by code_simp
  thus ?thesis by (simp add: main_start_def)
qed



section \<open>The claims\<close>

text \<open>
  C1. The accumulated time in the ready queue does not survive the reorder:
  \<open>resort_ready_queue\<close> re-inserts with \<open>insert_ready_queue\<close>, which resets
  \<open>time_in_ready_queue\<close>, so with two or more residents the accumulated time is lost in
  every iteration. With three records of priority 5 arriving at time 0, the two that wait
  still have priority 5 and accumulated time 0 at clock 150, after 149 ms in the ready
  queue; and in the state after the first iteration, an aging pass of 1 ms leaves the two
  residents with accumulated time 1, which the reorder sets back to 0.
\<close>

theorem aging_timer_lost_in_resort:
  "parse_input_file (Some starved_input) = Inr starved_procs
   \<and> aging_view (lockstep 150 (initial_state starved_procs)) =
       (150, [1, 2],
        [(STATE_RUNNING, 5, 0), (STATE_READY, 5, 0), (STATE_READY, 5, 0)],
        [Arrived 1 1, MovedToReady 1 1, Arrived 1 2, MovedToReady 1 2,
         Arrived 1 3, MovedToReady 1 3, Dispatched 1 1 5 300 300])
   \<and> map time_in_ready_queue
        (update_aging 1 (all_processes (lockstep 1 (initial_state starved_procs)))
          (ready_queue (lockstep 1 (initial_state starved_procs))))
       = [0, 1, 1]
   \<and> map time_in_ready_queue
        (fst (resort_ready_queue
          (update_aging 1 (all_processes (lockstep 1 (initial_state starved_procs)))
          (ready_queue (lockstep 1 (initial_state starved_procs))))
          (ready_queue (lockstep 1 (initial_state starved_procs)))))
       = [0, 0, 0]"
proof -
  have 1: "parse_input_file (Some starved_input) = Inr starved_procs" by code_simp
  have 2: "aging_view (lockstep 150 (initial_state starved_procs)) =
       (150, [1, 2],
        [(STATE_RUNNING, 5, 0), (STATE_READY, 5, 0), (STATE_READY, 5, 0)],
        [Arrived 1 1, MovedToReady 1 1, Arrived 1 2, MovedToReady 1 2,
         Arrived 1 3, MovedToReady 1 3, Dispatched 1 1 5 300 300])"
    by code_simp
  have 3: "map time_in_ready_queue
        (update_aging 1 (all_processes (lockstep 1 (initial_state starved_procs)))
          (ready_queue (lockstep 1 (initial_state starved_procs))))
       = [0, 1, 1]"
    by code_simp
  have 4: "map time_in_ready_queue
        (fst (resort_ready_queue
          (update_aging 1 (all_processes (lockstep 1 (initial_state starved_procs)))
          (ready_queue (lockstep 1 (initial_state starved_procs))))
          (ready_queue (lockstep 1 (initial_state starved_procs)))))
       = [0, 0, 0]"
    by code_simp
  show ?thesis using 1 2 3 4 by simp
qed

text \<open>
  C2. In every state that the two threads can reach, the ready queue is in Priority-SRTF
  order: whenever one resident has a strictly lower priority number than another, or the
  same priority and strictly less remaining time, it stands before the other. Inserting
  any record into the queue of such a state, and an aging pass of any length followed by
  the reorder, give an ordered queue again.
\<close>

theorem ready_queue_order:
  assumes "main_start args files tc = Inr s0" and "reachable s0 s"
  shows "(\<forall>i j. i < length (ready_queue s) \<and> j < length (ready_queue s)
            \<and> should_insert (all_processes s ! (ready_queue s ! i))
                 (all_processes s ! (ready_queue s ! j))
          \<longrightarrow> i < j)
    \<and> ordered (all_processes s) (ready_queue s)
    \<and> (\<forall>p. ordered (fst (insert_ready_queue (all_processes s) (ready_queue s) p))
               (snd (insert_ready_queue (all_processes s) (ready_queue s) p)))
    \<and> (\<forall>e. ordered
          (fst (resort_ready_queue (update_aging e (all_processes s) (ready_queue s))
                 (ready_queue s)))
          (snd (resort_ready_queue (update_aging e (all_processes s) (ready_queue s))
                 (ready_queue s))))"
proof -
  have o: "ordered (all_processes s) (ready_queue s)"
    using main_start_sched_inv [OF assms] by (simp add: sched_inv_def)
  have 1: "\<forall>i j. i < length (ready_queue s) \<and> j < length (ready_queue s)
            \<and> should_insert (all_processes s ! (ready_queue s ! i))
                 (all_processes s ! (ready_queue s ! j))
          \<longrightarrow> i < j"
    by (rule ordered_pairwise [THEN iffD1, OF o])
  have 2: "\<forall>p. ordered (fst (insert_ready_queue (all_processes s) (ready_queue s) p))
               (snd (insert_ready_queue (all_processes s) (ready_queue s) p))"
    using o by (simp add: insert_ready_queue_ordered)
  have 3: "\<forall>e. ordered
          (fst (resort_ready_queue (update_aging e (all_processes s) (ready_queue s))
                 (ready_queue s)))
          (snd (resort_ready_queue (update_aging e (all_processes s) (ready_queue s))
                 (ready_queue s)))"
    by (simp add: resort_ready_queue_ordered)
  show ?thesis using o 1 2 3 by blast
qed

theorem ready_queue_order_witness:
  "main_start [''input.txt''] (\<lambda>name. Some demo_input) True = Inr (initial_state demo_procs)
   \<and> reachable (initial_state demo_procs) demo_state
   \<and> ready_queue demo_state = [1, 0]
   \<and> should_insert (all_processes demo_state ! 1) (all_processes demo_state ! 0)
   \<and> ordered (all_processes demo_state) (ready_queue demo_state)"
  using ready_queue_order [OF demo_main demo_reachable] demo_main demo_reachable
  by (simp add: demo_state_value should_insert_def)




text \<open>
  C4. For the input of one record (pid 1, arrival 0, CPU 300, interval 100, I/O 50,
  priority 2), in the execution where the I/O manager makes one pass per millisecond after
  the scheduler: the record is dispatched at clock 1 for 100 ms, blocked for I/O at clock
  101 for 50 ms, back in the ready queue at clock 151 and dispatched at 152, blocked again
  at 252, ready at 302, dispatched at 303 and terminated at 403, when the scheduler raises
  the finished flag (not before). In every execution of the two threads in which the clock
  stays at most 2147483547, so that a burst of 100 ms ends by \<open>INT_MAX\<close>, a finished run
  has printed exactly 3 dispatches and 2 I/O blocks.
\<close>

theorem scenario_single_record:
  "parse_input_file (Some scenario_input) = Inr scenario_procs
   \<and> scenario_view (lockstep 403 (initial_state scenario_procs)) =
       ([Arrived 1 1, MovedToReady 1 1, Dispatched 1 1 2 300 100,
         BlockedForIO 101 1 50, IOFinished 151 1, MovedToReady 151 1,
         Dispatched 152 1 2 200 100,
         BlockedForIO 252 1 50, IOFinished 302 1, MovedToReady 302 1,
         Dispatched 303 1 2 100 100,
         Terminated 403 1],
        3, 2, [STATE_TERMINATED], True)
   \<and> \<not> all_terminated (lockstep 402 (initial_state scenario_procs))
   \<and> (\<forall>s. reachable_upto 2147483547 (initial_state scenario_procs) s \<and> all_terminated s
         \<longrightarrow> length (filter is_dispatch (printed s)) = 3
             \<and> length (filter is_io_block (printed s)) = 2)"
proof -
  have 1: "parse_input_file (Some scenario_input) = Inr scenario_procs" by code_simp
  have 2: "scenario_view (lockstep 403 (initial_state scenario_procs)) =
       ([Arrived 1 1, MovedToReady 1 1, Dispatched 1 1 2 300 100,
         BlockedForIO 101 1 50, IOFinished 151 1, MovedToReady 151 1,
         Dispatched 152 1 2 200 100,
         BlockedForIO 252 1 50, IOFinished 302 1, MovedToReady 302 1,
         Dispatched 303 1 2 100 100,
         Terminated 403 1],
        3, 2, [STATE_TERMINATED], True)"
    by code_simp
  have 3: "\<not> all_terminated (lockstep 402 (initial_state scenario_procs))" by code_simp
  have ro: "room 2147483547 (all_processes (initial_state scenario_procs))" by code_simp
  have 4: "\<forall>s. reachable_upto 2147483547 (initial_state scenario_procs) s \<and> all_terminated s
         \<longrightarrow> length (filter is_dispatch (printed s)) = 3
             \<and> length (filter is_io_block (printed s)) = 2"
  proof (intro allI impI)
    fix s
    assume a: "reachable_upto 2147483547 (initial_state scenario_procs) s \<and> all_terminated s"
    have "int (length (filter is_dispatch (printed s))) = 3"
      "int (length (filter is_io_block (printed s))) = 2"
      using run_totals [OF scenario_main scenario_well_formed _ _ ro] a scenario_bursts
      by simp_all
    thus "length (filter is_dispatch (printed s)) = 3
        \<and> length (filter is_io_block (printed s)) = 2"
      by simp
  qed
  show ?thesis using 1 2 3 4 by blast
qed

theorem scenario_single_record_witness:
  "reachable_upto 2147483547 (initial_state scenario_procs)
     (lockstep 403 (initial_state scenario_procs))
   \<and> all_terminated (lockstep 403 (initial_state scenario_procs))
   \<and> length (filter is_dispatch (printed (lockstep 403 (initial_state scenario_procs)))) = 3
   \<and> length (filter is_io_block (printed (lockstep 403 (initial_state scenario_procs)))) = 2"
proof -
  have r: "reachable_upto 2147483547 (initial_state scenario_procs)
      (lockstep 403 (initial_state scenario_procs))"
    by (rule reachable_upto_lockstep_initial) (simp_all add: INT_MAX_def)
  have "scenario_view (lockstep 403 (initial_state scenario_procs)) =
       ([Arrived 1 1, MovedToReady 1 1, Dispatched 1 1 2 300 100,
         BlockedForIO 101 1 50, IOFinished 151 1, MovedToReady 151 1,
         Dispatched 152 1 2 200 100,
         BlockedForIO 252 1 50, IOFinished 302 1, MovedToReady 302 1,
         Dispatched 303 1 2 100 100,
         Terminated 403 1],
        3, 2, [STATE_TERMINATED], True)"
    using scenario_single_record by blast
  hence t: "all_terminated (lockstep 403 (initial_state scenario_procs))"
    by (simp add: scenario_view_def)
  from scenario_single_record
  have "\<forall>s. reachable_upto 2147483547 (initial_state scenario_procs) s \<and> all_terminated s
         \<longrightarrow> length (filter is_dispatch (printed s)) = 3
             \<and> length (filter is_io_block (printed s)) = 2"
    by blast
  thus ?thesis using r t by blast
qed

text \<open>
  C5. For every record and every state that the two threads can reach: the priority is at
  most the original priority, which is the priority read from the input; it is not below 0
  when the priority in the input is not below 0, and a priority that is 0 or less in the
  input is never changed; no step increases it (a clock increment and a pass of the I/O
  manager leave it unchanged, an iteration of the scheduler does not raise it); and within
  an iteration of the scheduler only \<open>update_aging\<close> writes it: the arrivals leave it
  unchanged, the value after the iteration is the value after the aging check, and that is
  the value \<open>age_process\<close> computes for the residents of the ready queue when the clock
  has advanced, the old value otherwise.
\<close>

theorem priority_changes_only_by_aging:
  assumes "main_start args files tc = Inr s0" and "reachable s0 s"
    and "i < length (all_processes s)"
  shows "priority (all_processes s ! i) \<le> original_priority (all_processes s ! i)
    \<and> original_priority (all_processes s ! i) = priority (all_processes s0 ! i)
    \<and> (0 \<le> original_priority (all_processes s ! i) \<longrightarrow> 0 \<le> priority (all_processes s ! i))
    \<and> (original_priority (all_processes s ! i) \<le> 0
         \<longrightarrow> priority (all_processes s ! i) = original_priority (all_processes s ! i))
    \<and> priority (all_processes (clock_tick s) ! i) = priority (all_processes s ! i)
    \<and> (\<forall>c. priority (all_processes (io_manager_pass c s) ! i) = priority (all_processes s ! i))
    \<and> priority (all_processes (tick_body s) ! i) \<le> priority (all_processes s ! i)
    \<and> priority (all_processes (after_arrivals s) ! i) = priority (all_processes s ! i)
    \<and> priority (all_processes (tick_body s) ! i) = priority (all_processes (after_aging s) ! i)
    \<and> priority (all_processes (after_aging s) ! i) =
        (if current_clock s > last_aging_check (after_arrivals s)
            \<and> i \<in> set (ready_queue (after_arrivals s))
         then priority (age_process
                (c_int (current_clock s - last_aging_check (after_arrivals s)))
                (all_processes (after_arrivals s) ! i))
         else priority (all_processes s ! i))"
proof -
  obtain procs where s0: "s0 = initial_state procs" and fr: "list_all fresh procs"
    using main_start_initial [OF assms(1)] by blast
  have inv0: "sched_inv s0" using s0 fr by (simp add: sched_inv_initial)
  have inv: "sched_inv s" using assms(2) inv0 by (rule reachable_sched_inv)
  have len: "length (all_processes s) = length (all_processes s0)"
    using assms(2) inv0 by (rule reachable_length)
  hence i0: "i < length (all_processes s0)" using assms(3) by simp
  have "static (all_processes s ! i) = static (all_processes s0 ! i)"
    using reachable_static [OF assms(2) inv0] i0 by (rule map_eq_nth)
  hence orig: "original_priority (all_processes s ! i) = original_priority (all_processes s0 ! i)"
    by (simp add: static_def)
  have f0: "fresh (all_processes s0 ! i)"
    using fr i0 s0 by (simp add: list_all_length initial_state_def)
  hence p0: "priority (all_processes s0 ! i) = original_priority (all_processes s0 ! i)"
    by (simp add: fresh_def)
  have t0: "is_int (priority (all_processes s0 ! i))"
    using f0 by (simp add: fresh_def typed_def)
  have b: "priority (all_processes s ! i) \<le> priority (all_processes s0 ! i)
    \<and> (0 \<le> priority (all_processes s0 ! i) \<longrightarrow> 0 \<le> priority (all_processes s ! i))
    \<and> is_int (priority (all_processes s ! i))"
    using assms(2) inv0 i0 t0 by (rule reachable_priority_bounds)
  have 1: "priority (all_processes s ! i) \<le> original_priority (all_processes s ! i)"
    using b orig p0 by simp
  have 2: "original_priority (all_processes s ! i) = priority (all_processes s0 ! i)"
    using orig p0 by simp
  have 3: "0 \<le> original_priority (all_processes s ! i) \<longrightarrow> 0 \<le> priority (all_processes s ! i)"
    using b orig p0 by simp
  have 10: "original_priority (all_processes s ! i) \<le> 0
         \<longrightarrow> priority (all_processes s ! i) = original_priority (all_processes s ! i)"
    using reachable_priority_nonpos [OF assms(2) inv0 i0] orig p0 by simp
  have 4: "priority (all_processes (clock_tick s) ! i) = priority (all_processes s ! i)"
    by (simp add: clock_tick_def)
  have 5: "\<forall>c. priority (all_processes (io_manager_pass c s) ! i) = priority (all_processes s ! i)"
    using map_eq_nth [OF io_manager_pass_priority [OF inv] assms(3)] by simp
  have 6: "priority (all_processes (tick_body s) ! i) \<le> priority (all_processes s ! i)"
    using inv assms(3) b by (intro tick_body_priority_le(1)) simp_all
  have 7: "priority (all_processes (after_arrivals s) ! i) = priority (all_processes s ! i)"
    using after_arrivals_priority [OF inv] assms(3) by (rule map_eq_nth)
  have 8: "priority (all_processes (tick_body s) ! i) = priority (all_processes (after_aging s) ! i)"
    using inv assms(3) by (rule tick_body_priority_nth)
  have 9: "priority (all_processes (after_aging s) ! i) =
        (if current_clock s > last_aging_check (after_arrivals s)
            \<and> i \<in> set (ready_queue (after_arrivals s))
         then priority (age_process
                (c_int (current_clock s - last_aging_check (after_arrivals s)))
                (all_processes (after_arrivals s) ! i))
         else priority (all_processes s ! i))"
    using inv assms(3) by (rule after_aging_priority)
  show ?thesis using 1 2 3 4 5 6 7 8 9 10 by blast
qed

theorem priority_changes_only_by_aging_witness:
  "main_start [''input.txt''] (\<lambda>name. Some aging_input) True = Inr (initial_state aging_procs)
   \<and> reachable (initial_state aging_procs) (clock_tick (lockstep 100 (initial_state aging_procs)))
   \<and> (1::nat) < length (all_processes (clock_tick (lockstep 100 (initial_state aging_procs))))
   \<and> current_clock (clock_tick (lockstep 100 (initial_state aging_procs))) = 101
   \<and> ready_queue (clock_tick (lockstep 100 (initial_state aging_procs))) = [1]
   \<and> time_in_ready_queue
        (all_processes (clock_tick (lockstep 100 (initial_state aging_procs))) ! 1) = 99
   \<and> priority (all_processes (clock_tick (lockstep 100 (initial_state aging_procs))) ! 1) = 5
   \<and> original_priority
        (all_processes (clock_tick (lockstep 100 (initial_state aging_procs))) ! 1) = 5
   \<and> priority (all_processes (tick_body (clock_tick (lockstep 100
        (initial_state aging_procs)))) ! 1) = 4"
proof -
  let ?s = "clock_tick (lockstep 100 (initial_state aging_procs))"
  have v: "\<not> in_tick (lockstep 100 (initial_state aging_procs))"
    "\<not> all_terminated (lockstep 100 (initial_state aging_procs))"
    "(1::nat) < length (all_processes ?s)" "current_clock ?s = 101" "ready_queue ?s = [1]"
    "time_in_ready_queue (all_processes ?s ! 1) = 99" "priority (all_processes ?s ! 1) = 5"
    "original_priority (all_processes ?s ! 1) = 5"
    by code_simp+
  have e: "(if current_clock ?s > last_aging_check (after_arrivals ?s)
            \<and> 1 \<in> set (ready_queue (after_arrivals ?s))
         then priority (age_process
                (c_int (current_clock ?s - last_aging_check (after_arrivals ?s)))
                (all_processes (after_arrivals ?s) ! 1))
         else priority (all_processes ?s ! 1)) = 4"
    by code_simp
  have "reachable (initial_state aging_procs) (lockstep 100 (initial_state aging_procs))"
    by (rule reachable_lockstep_initial) (simp add: INT_MAX_def)
  hence re: "reachable (initial_state aging_procs) ?s" using v(1,2) by (rule reach_clock)
  from priority_changes_only_by_aging [OF aging_main re v(3)]
  have "priority (all_processes (tick_body ?s) ! 1) =
        (if current_clock ?s > last_aging_check (after_arrivals ?s)
            \<and> 1 \<in> set (ready_queue (after_arrivals ?s))
         then priority (age_process
                (c_int (current_clock ?s - last_aging_check (after_arrivals ?s)))
                (all_processes (after_arrivals ?s) ! 1))
         else priority (all_processes ?s ! 1))"
    by presburger
  hence "priority (all_processes (tick_body ?s) ! 1) = 4" using e by simp
  thus ?thesis using aging_main re v by simp
qed

text \<open>
  C5, where the claim fails. A line with priority -2 is accepted, and the record keeps
  this priority, below 0, in every state: here it is Running with priority -2 after the
  first iteration.
\<close>

theorem negative_priority_kept:
  "main_start [''input.txt''] (\<lambda>name. Some negative_input) True
     = Inr (initial_state negative_procs)
   \<and> reachable (initial_state negative_procs) (lockstep 1 (initial_state negative_procs))
   \<and> state (all_processes (lockstep 1 (initial_state negative_procs)) ! 0) = STATE_RUNNING
   \<and> priority (all_processes (lockstep 1 (initial_state negative_procs)) ! 0) = - 2
   \<and> priority (all_processes (lockstep 1 (initial_state negative_procs)) ! 0) < 0
   \<and> printed (lockstep 1 (initial_state negative_procs)) =
       [Arrived 1 1, MovedToReady 1 1, Dispatched 1 1 (- 2) 3 2]"
proof -
  have re: "reachable (initial_state negative_procs) (lockstep 1 (initial_state negative_procs))"
    by (rule reachable_lockstep_initial) (simp add: INT_MAX_def)
  have e: "state (all_processes (lockstep 1 (initial_state negative_procs)) ! 0) = STATE_RUNNING
   \<and> priority (all_processes (lockstep 1 (initial_state negative_procs)) ! 0) = - 2
   \<and> priority (all_processes (lockstep 1 (initial_state negative_procs)) ! 0) < 0
   \<and> printed (lockstep 1 (initial_state negative_procs)) =
       [Arrived 1 1, MovedToReady 1 1, Dispatched 1 1 (- 2) 3 2]"
    by code_simp
  show ?thesis using negative_main re e by simp
qed

text \<open>
  C6. In every state that the two threads can reach, a record has state Running exactly
  when it is the one in the running slot, so at most one record is Running.
\<close>

theorem single_running_slot:
  assumes "main_start args files tc = Inr s0" and "reachable s0 s"
  shows "(\<forall>i<length (all_processes s).
            (state (all_processes s ! i) = STATE_RUNNING) = (running_process s = Some i))
    \<and> (\<forall>r. running_process s = Some r \<longrightarrow> r < length (all_processes s))
    \<and> length (filter (\<lambda>p. state p = STATE_RUNNING) (all_processes s)) \<le> 1"
proof -
  have wf: "wf_sched s" using main_start_sched_inv [OF assms] by (simp add: sched_inv_def)
  have 1: "\<forall>i<length (all_processes s).
            (state (all_processes s ! i) = STATE_RUNNING) = (running_process s = Some i)"
    using wf_sched_running [OF wf] by simp
  have 2: "\<forall>r. running_process s = Some r \<longrightarrow> r < length (all_processes s)"
    using wf_sched_running [OF wf] by simp
  have "\<forall>i j. i < length (all_processes s) \<and> j < length (all_processes s)
      \<and> state (all_processes s ! i) = STATE_RUNNING \<and> state (all_processes s ! j) = STATE_RUNNING
      \<longrightarrow> i = j"
    using 1 by auto
  hence 3: "length (filter (\<lambda>p. state p = STATE_RUNNING) (all_processes s)) \<le> 1"
    by (rule filter_unique_length)
  show ?thesis using 1 2 3 by blast
qed

theorem single_running_slot_witness:
  "main_start [''input.txt''] (\<lambda>name. Some demo_input) True = Inr (initial_state demo_procs)
   \<and> reachable (initial_state demo_procs) demo_state
   \<and> running_process demo_state = Some 2
   \<and> map state (all_processes demo_state) = [STATE_READY, STATE_READY, STATE_RUNNING]"
  using single_running_slot [OF demo_main demo_reachable] demo_main demo_reachable
  by (simp add: demo_state_value)







text \<open>
  C9. If the input holds no process descriptor (no line that \<open>parse_input_file\<close>
  counts), parsing fails with the error of an empty file and \<open>main\<close> returns
  \<open>EXIT_FAILURE\<close> before the scheduler state exists: no iteration of the scheduler runs.
\<close>

theorem empty_input_rejected:
  assumes "files filename = Some content" and "counted_lines content = []"
  shows "parse_input_file (files filename) = Inl NoProcesses
    \<and> main_start [filename] files thread_created = Inl EXIT_FAILURE"
proof -
  have "parse_input_file (files filename) = Inl NoProcesses"
    using assms by (simp add: parse_input_file_char)
  thus ?thesis by (simp add: main_start_def)
qed

theorem empty_input_rejected_witness:
  "counted_lines [CHR 0x0A, CHR 0x0A] = []
   \<and> parse_input_file (Some [CHR 0x0A, CHR 0x0A]) = Inl NoProcesses
   \<and> main_start [''input.txt''] (\<lambda>name. Some [CHR 0x0A, CHR 0x0A]) True = Inl EXIT_FAILURE"
proof -
  have c: "counted_lines [CHR 0x0A, CHR 0x0A] = []" by code_simp
  from empty_input_rejected [where files = "\<lambda>name. Some [CHR 0x0A, CHR 0x0A]"
      and filename = "''input.txt''" and content = "[CHR 0x0A, CHR 0x0A]"
      and thread_created = True] c
  show ?thesis by simp
qed

text \<open>
  C10. \<open>parse_input_file\<close> checks nothing but the number of integers that \<open>sscanf\<close>
  converts on each counted line: it fails with a format error exactly when some counted
  line does not yield six integers (a line yields no record exactly when \<open>sscanf\<close> converts
  fewer than six), and otherwise returns the records with the values as
  read. A line with a negative arrival time, zero CPU time and priority 99 is accepted and
  the scheduler starts with these values.
\<close>

theorem parse_checks_only_the_field_count:
  "parse_input_file (Some content) =
     (if counted_lines content = [] then Inl NoProcesses
      else if list_all (\<lambda>l. line_record l \<noteq> None) (counted_lines content)
      then Inr (map (the \<circ> line_record) (counted_lines content))
      else Inl (InvalidFormat
             (Suc (length (takeWhile (\<lambda>l. line_record l \<noteq> None) (counted_lines content))))))
   \<and> (\<forall>l. (line_record l = None) = (length (sscanf_ints 6 (c_str l)) < 6))
   \<and> line_record ''1 -5 0 100 50 99'' = Some (init_process 1 (- 5) 0 100 50 99)
   \<and> main_start [''input.txt''] (\<lambda>name. Some ''1 -5 0 100 50 99'') True
       = Inr (initial_state [init_process 1 (- 5) 0 100 50 99])"
proof -
  have 1: "line_record ''1 -5 0 100 50 99'' = Some (init_process 1 (- 5) 0 100 50 99)"
    by code_simp
  have 2: "parse_input_file (Some ''1 -5 0 100 50 99'') = Inr [init_process 1 (- 5) 0 100 50 99]"
    by code_simp
  have 3: "main_start [''input.txt''] (\<lambda>name. Some ''1 -5 0 100 50 99'') True
       = Inr (initial_state [init_process 1 (- 5) 0 100 50 99])"
    by (simp add: main_start_def 2)
  have 4: "\<forall>l. (line_record l = None) = (length (sscanf_ints 6 (c_str l)) < 6)"
  proof
    fix l
    have "length (sscanf_ints 6 (c_str l)) \<le> 6" by (rule sscanf_ints_length)
    thus "(line_record l = None) = (length (sscanf_ints 6 (c_str l)) < 6)"
      using line_record_None [of l] by arith
  qed
  show ?thesis using 1 3 4 parse_input_file_char [of content] by simp
qed

end
